theory Spec2Isabelle
  imports Main "HOL-Library.AList"
begin

unbundle bit_operations_syntax

section \<open>Characters and Python string primitives\<close>

text \<open>
  Python strings are modelled as \<^typ>\<open>string\<close>. The model covers ASCII text: the
  character classes below are the ASCII members of Python's classes (\<^verbatim>\<open>str.isspace\<close>,
  the regex classes \<^verbatim>\<open>\s\<close>, \<^verbatim>\<open>\w\<close>, \<^verbatim>\<open>[a-z]\<close>), and \<^verbatim>\<open>encode("utf-8")\<close> is the
  identity on such text.
\<close>

definition is_space :: "char \<Rightarrow> bool" where
  "is_space c \<longleftrightarrow>
     c \<in> set [CHR 0x09, CHR 0x0A, CHR 0x0B, CHR 0x0C, CHR 0x0D,
              CHR 0x1C, CHR 0x1D, CHR 0x1E, CHR 0x1F, CHR 0x20]"

definition is_lower :: "char \<Rightarrow> bool" where
  "is_lower c \<longleftrightarrow> c \<in> set ''abcdefghijklmnopqrstuvwxyz''"

definition is_upper :: "char \<Rightarrow> bool" where
  "is_upper c \<longleftrightarrow> c \<in> set ''ABCDEFGHIJKLMNOPQRSTUVWXYZ''"

definition is_digit :: "char \<Rightarrow> bool" where
  "is_digit c \<longleftrightarrow> c \<in> set ''0123456789''"

definition is_alpha :: "char \<Rightarrow> bool" where
  "is_alpha c \<longleftrightarrow> is_lower c \<or> is_upper c"

text \<open>The regex class \<^verbatim>\<open>\w\<close>.\<close>

definition is_word :: "char \<Rightarrow> bool" where
  "is_word c \<longleftrightarrow> is_alpha c \<or> is_digit c \<or> c = CHR ''_''"

definition lower_char :: "char \<Rightarrow> char" where
  "lower_char c = (if is_upper c then char_of (of_char c + (32 :: nat)) else c)"

definition py_lower :: "string \<Rightarrow> string" where
  "py_lower s = map lower_char s"

definition lstrip_by :: "(char \<Rightarrow> bool) \<Rightarrow> string \<Rightarrow> string" where
  "lstrip_by P s = dropWhile P s"

definition rstrip_by :: "(char \<Rightarrow> bool) \<Rightarrow> string \<Rightarrow> string" where
  "rstrip_by P s = rev (dropWhile P (rev s))"

definition strip_by :: "(char \<Rightarrow> bool) \<Rightarrow> string \<Rightarrow> string" where
  "strip_by P s = rstrip_by P (lstrip_by P s)"

text \<open>\<^verbatim>\<open>s.strip()\<close>\<close>

definition py_strip :: "string \<Rightarrow> string" where
  "py_strip s = strip_by is_space s"

text \<open>\<^verbatim>\<open>s.startswith(p)\<close>, \<^verbatim>\<open>s.endswith(p)\<close> and \<^verbatim>\<open>p in s\<close>.\<close>

definition startswith :: "string \<Rightarrow> string \<Rightarrow> bool" where
  "startswith s p \<longleftrightarrow> take (length p) s = p"

definition endswith :: "string \<Rightarrow> string \<Rightarrow> bool" where
  "endswith s p \<longleftrightarrow> startswith (rev s) (rev p)"

fun py_in :: "string \<Rightarrow> string \<Rightarrow> bool" where
  "py_in p [] \<longleftrightarrow> p = []"
| "py_in p (c # cs) \<longleftrightarrow> startswith (c # cs) p \<or> py_in p cs"

text \<open>\<^verbatim>\<open>sep.join(xs)\<close>\<close>

fun join :: "string \<Rightarrow> string list \<Rightarrow> string" where
  "join sep [] = []"
| "join sep [x] = x"
| "join sep (x # y # ys) = x @ sep @ join sep (y # ys)"

text \<open>
  \<^verbatim>\<open>s.splitlines()\<close>: a line ends at \<^verbatim>\<open>\n\<close>, \<^verbatim>\<open>\r\<close>, \<^verbatim>\<open>\r\n\<close>, \<^verbatim>\<open>\v\<close>, \<^verbatim>\<open>\f\<close>,
  \<^verbatim>\<open>\x1c\<close>, \<^verbatim>\<open>\x1d\<close> or \<^verbatim>\<open>\x1e\<close>; the terminators are dropped and no empty last
  line is produced.
\<close>

definition is_linebreak :: "char \<Rightarrow> bool" where
  "is_linebreak c \<longleftrightarrow>
     c \<in> set [CHR 0x0A, CHR 0x0B, CHR 0x0C, CHR 0x0D, CHR 0x1C, CHR 0x1D, CHR 0x1E]"

fun splitlines_from :: "string \<Rightarrow> string \<Rightarrow> string list" where
  "splitlines_from cur [] = (if cur = [] then [] else [rev cur])"
| "splitlines_from cur [c] =
     (if is_linebreak c then [rev cur] else [rev (c # cur)])"
| "splitlines_from cur (c # d # cs) =
     (if c = CHR 0x0D \<and> d = CHR 0x0A then rev cur # splitlines_from [] cs
      else if is_linebreak c then rev cur # splitlines_from [] (d # cs)
      else splitlines_from (c # cur) (d # cs))"

definition splitlines :: "string \<Rightarrow> string list" where
  "splitlines s = splitlines_from [] s"

text \<open>\<^verbatim>\<open>str(n)\<close> for a non-negative integer.\<close>

definition digit_char :: "nat \<Rightarrow> char" where
  "digit_char n = ''0123456789'' ! (n mod 10)"

fun str_of_nat :: "nat \<Rightarrow> string" where
  "str_of_nat n = (if n < 10 then [digit_char n] else str_of_nat (n div 10) @ [digit_char n])"

declare str_of_nat.simps [simp del]

section \<open>Regular-expression building blocks\<close>

text \<open>
  The pattern \<^verbatim>\<open>([^d]+)d\<close> at the head of a string: one or more characters other than
  \<open>d\<close>, then \<open>d\<close>. The class excludes the terminator, so the greedy run is the only way
  to match. The result is the captured run and the text after the terminator.
\<close>

definition run_then :: "char \<Rightarrow> string \<Rightarrow> (string \<times> string) option" where
  "run_then d s =
     (let run = takeWhile (\<lambda>c. c \<noteq> d) s; r = dropWhile (\<lambda>c. c \<noteq> d) s
      in if run = [] \<or> r = [] then None else Some (run, tl r))"

section \<open>Slugs\<close>

text \<open>\<^verbatim>\<open>re.sub(r"<[^>]+>", "", s)\<close>\<close>

function remove_tags :: "string \<Rightarrow> string" where
  "remove_tags [] = []"
| "remove_tags (c # cs) =
     (if c = CHR ''<'' then
        (case run_then CHR ''>'' cs of
           Some (tag, r) \<Rightarrow> remove_tags r
         | None \<Rightarrow> c # remove_tags cs)
      else c # remove_tags cs)"
  by pat_completeness auto
termination
proof (relation "measure length")
  fix c cs x2 tag r
  assume "run_then CHR ''>'' cs = Some x2" and "(tag, r) = x2"
  then have "length r \<le> length (dropWhile (\<lambda>c. c \<noteq> CHR ''>'') cs)"
    by (auto simp: run_then_def Let_def split: if_splits)
  also have "\<dots> \<le> length cs"
    by (rule length_dropWhile_le)
  finally show "(r, c # cs) \<in> measure length"
    by simp
qed auto

text \<open>\<^verbatim>\<open>re.sub(r"[\s\-]+", "-", s)\<close>\<close>

definition is_sep :: "char \<Rightarrow> bool" where
  "is_sep c \<longleftrightarrow> is_space c \<or> c = CHR ''-''"

function collapse_seps :: "string \<Rightarrow> string" where
  "collapse_seps [] = []"
| "collapse_seps (c # cs) =
     (if is_sep c then CHR ''-'' # collapse_seps (dropWhile is_sep cs)
      else c # collapse_seps cs)"
  by pat_completeness auto
termination
proof (relation "measure length")
  fix c cs
  have "length (dropWhile is_sep cs) \<le> length cs"
    by (rule length_dropWhile_le)
  then show "(dropWhile is_sep cs, c # cs) \<in> measure length"
    by simp
qed auto

definition slugify :: "string \<Rightarrow> string" where
  "slugify s =
     (let s1 = py_lower (py_strip s);
          s2 = remove_tags s1;
          s3 = filter (\<lambda>c. c \<notin> set [CHR 0x60, CHR ''*'', CHR ''_'', CHR ''~'']) s2;
          s4 = filter (\<lambda>c. is_lower c \<or> is_digit c \<or> is_space c \<or> c = CHR ''-'') s3;
          s5 = strip_by (\<lambda>c. c = CHR ''-'') (collapse_seps s4)
      in if s5 = [] then ''section'' else s5)"

subsection \<open>SHA-1\<close>

text \<open>
  \<^verbatim>\<open>hashlib.sha1(data).hexdigest()\<close>, after FIPS 180-4, on 32-bit values held in
  \<^typ>\<open>int\<close> with the reduction modulo \<open>2^32\<close> written out.
\<close>

definition m32 :: "int \<Rightarrow> int" where
  "m32 x = x mod 4294967296"

definition rotl32 :: "nat \<Rightarrow> int \<Rightarrow> int" where
  "rotl32 k x = m32 (x * 2 ^ k) + x div 2 ^ (32 - k)"

definition sha1_pad :: "string \<Rightarrow> int list" where
  "sha1_pad s =
     (let bs = map of_char s;
          n = length bs;
          k = (119 - n mod 64) mod 64;
          bits = 8 * int n
      in bs @ [128] @ replicate k 0 @
         map (\<lambda>i. (bits div 2 ^ (8 * (7 - i))) mod 256) [0..<8])"

fun be_words :: "int list \<Rightarrow> int list" where
  "be_words (a # b # c # d # r) = (((a * 256 + b) * 256 + c) * 256 + d) # be_words r"
| "be_words _ = []"

fun chunks64 :: "nat \<Rightarrow> int list \<Rightarrow> int list list" where
  "chunks64 0 bs = []"
| "chunks64 (Suc n) bs = take 64 bs # chunks64 n (drop 64 bs)"

fun schedule :: "nat \<Rightarrow> int list \<Rightarrow> int list" where
  "schedule 0 ws = ws"
| "schedule (Suc n) ws =
     (let l = length ws
      in schedule n
           (ws @ [rotl32 1 (ws ! (l - 3) XOR ws ! (l - 8) XOR ws ! (l - 14) XOR ws ! (l - 16))]))"

type_synonym sha_state = "int \<times> int \<times> int \<times> int \<times> int"

definition sha1_f :: "nat \<Rightarrow> int \<Rightarrow> int \<Rightarrow> int \<Rightarrow> int" where
  "sha1_f i b c d =
     (if i < 20 then (b AND c) OR ((4294967295 - b) AND d)
      else if i < 40 then b XOR c XOR d
      else if i < 60 then (b AND c) OR (b AND d) OR (c AND d)
      else b XOR c XOR d)"

definition sha1_k :: "nat \<Rightarrow> int" where
  "sha1_k i =
     (if i < 20 then 0x5A827999 else if i < 40 then 0x6ED9EBA1
      else if i < 60 then 0x8F1BBCDC else 0xCA62C1D6)"

fun sha1_round :: "nat \<Rightarrow> int \<Rightarrow> sha_state \<Rightarrow> sha_state" where
  "sha1_round i w (a, b, c, d, e) =
     (m32 (rotl32 5 a + sha1_f i b c d + e + sha1_k i + w), a, rotl32 30 b, c, d)"

fun sha1_rounds :: "nat \<Rightarrow> int list \<Rightarrow> sha_state \<Rightarrow> sha_state" where
  "sha1_rounds i [] st = st"
| "sha1_rounds i (w # ws) st = sha1_rounds (Suc i) ws (sha1_round i w st)"

fun add_state :: "sha_state \<Rightarrow> sha_state \<Rightarrow> sha_state" where
  "add_state (h0, h1, h2, h3, h4) (a, b, c, d, e) =
     (m32 (h0 + a), m32 (h1 + b), m32 (h2 + c), m32 (h3 + d), m32 (h4 + e))"

definition sha1_block :: "sha_state \<Rightarrow> int list \<Rightarrow> sha_state" where
  "sha1_block st blk = add_state st (sha1_rounds 0 (schedule 64 (be_words blk)) st)"

definition sha1 :: "string \<Rightarrow> sha_state" where
  "sha1 s =
     (let p = sha1_pad s
      in foldl sha1_block (0x67452301, 0xEFCDAB89, 0x98BADCFE, 0x10325476, 0xC3D2E1F0)
           (chunks64 (length p div 64) p))"

definition hex_digit :: "int \<Rightarrow> char" where
  "hex_digit n = ''0123456789abcdef'' ! nat (n mod 16)"

definition hex32 :: "int \<Rightarrow> string" where
  "hex32 w = map (\<lambda>i. hex_digit (w div 16 ^ (7 - i))) [0..<8]"

fun hexdigest_of :: "sha_state \<Rightarrow> string" where
  "hexdigest_of (a, b, c, d, e) = hex32 a @ hex32 b @ hex32 c @ hex32 d @ hex32 e"

definition sha1_hexdigest :: "string \<Rightarrow> string" where
  "sha1_hexdigest s = hexdigest_of (sha1 s)"

subsection \<open>Document slugs\<close>

text \<open>
  \<^verbatim>\<open>safe_file_slug(root, md_path)\<close>. Its argument here is \<open>rel\<close>, the POSIX form of the
  document's path relative to the corpus root, which the source computes first.
\<close>

definition safe_file_slug :: "string \<Rightarrow> string" where
  "safe_file_slug rel =
     (let base = slugify (map (\<lambda>c. if c = CHR ''/'' then CHR '' '' else c) rel);
          h = take 8 (sha1_hexdigest rel)
      in base @ ''-'' @ h)"

text \<open>
  The table \<^verbatim>\<open>file_slug_by_md_rel\<close> that \<^verbatim>\<open>main\<close> fills, one entry per document in
  processing order. A Python dict keeps the position of a key that is assigned again.
\<close>

definition build_slug_table :: "string list \<Rightarrow> (string \<times> string) list" where
  "build_slug_table rels = fold (\<lambda>rel d. AList.update rel (safe_file_slug rel) d) rels []"

section \<open>Diagram normalisation\<close>

definition bslash :: char where
  "bslash = CHR 0x5C"

definition dquote :: char where
  "dquote = CHR 0x22"

text \<open>
  The values \<^verbatim>\<open>--mermaid-flow-direction\<close> accepts (\<^verbatim>\<open>choices=["TB","TD","BT","RL","LR"]\<close>);
  no override is \<^verbatim>\<open>None\<close>.
\<close>

datatype flow_dir = TB | TD | BT | RL | LR

fun flow_dir_str :: "flow_dir \<Rightarrow> string" where
  "flow_dir_str TB = ''TB''"
| "flow_dir_str TD = ''TD''"
| "flow_dir_str BT = ''BT''"
| "flow_dir_str RL = ''RL''"
| "flow_dir_str LR = ''LR''"

text \<open>
  \<^verbatim>\<open>^(flowchart|graph)\s+[A-Z]{2}\b\<close> at the start of a line: the keyword and the text
  after the two-letter token.
\<close>

definition match_direction :: "string \<Rightarrow> (string \<times> string) option" where
  "match_direction s =
     (let kw = (if startswith s ''flowchart'' then ''flowchart''
                else if startswith s ''graph'' then ''graph'' else [])
      in if kw = [] then None
         else
           (let r = drop (length kw) s
            in if takeWhile is_space r = [] then None
               else
                 (case dropWhile is_space r of
                    a # b # r' \<Rightarrow>
                      if is_upper a \<and> is_upper b \<and> (r' = [] \<or> \<not> is_word (hd r'))
                      then Some (kw, r') else None
                  | _ \<Rightarrow> None)))"

text \<open>
  \<^verbatim>\<open>re.sub(r"^(flowchart|graph)\s+[A-Z]{2}\b", rf"\1 {flow_direction}", src, flags=re.MULTILINE)\<close>.
  The flag \<open>bol\<close> says that the scan is at the start of the text or just after a newline.
\<close>

function sub_direction :: "string \<Rightarrow> bool \<Rightarrow> string \<Rightarrow> string" where
  "sub_direction d bol [] = []"
| "sub_direction d bol (c # cs) =
     (case (if bol then match_direction (c # cs) else None) of
        Some (kw, r) \<Rightarrow> kw @ '' '' @ d @ sub_direction d False r
      | None \<Rightarrow> c # sub_direction d (c = CHR 0x0A) cs)"
  by pat_completeness auto
termination
proof (relation "measure (\<lambda>(d, bol, s). length s)")
  fix d :: string and bol c cs x2 kw r
  assume h: "(if bol then match_direction (c # cs) else None) = Some x2" "(kw, r) = x2"
  have key: "length r < length s" if m: "match_direction s = Some (kw, r)" for s
  proof -
    from m obtain n a b where "dropWhile is_space (drop n s) = a # b # r"
      unfolding match_direction_def Let_def
      by (auto split: if_splits list.splits)
    moreover have "length (dropWhile is_space (drop n s)) \<le> length s"
      by (rule order_trans [OF length_dropWhile_le]) simp
    ultimately show ?thesis
      by simp
  qed
  from h have "match_direction (c # cs) = Some (kw, r)"
    by (simp split: if_splits)
  then have "length r < length (c # cs)"
    by (rule key)
  then show "((d, False, r), (d, bol, c # cs)) \<in> measure (\<lambda>(d, bol, s). length s)"
    by simp
qed auto

text \<open>\<^verbatim>\<open>re.sub(r"\\n\s*\(", r" (", src)\<close>: a backslash, the letter n, any whitespace, an open parenthesis.\<close>

definition match_nl_paren :: "string \<Rightarrow> string option" where
  "match_nl_paren s =
     (case s of
        a # b # r \<Rightarrow>
          if a = bslash \<and> b = CHR ''n'' then
            (case dropWhile is_space r of
               p # r' \<Rightarrow> if p = CHR ''('' then Some r' else None
             | [] \<Rightarrow> None)
          else None
      | _ \<Rightarrow> None)"

function sub_nl_paren :: "string \<Rightarrow> string" where
  "sub_nl_paren [] = []"
| "sub_nl_paren (c # cs) =
     (case match_nl_paren (c # cs) of
        Some r \<Rightarrow> '' ('' @ sub_nl_paren r
      | None \<Rightarrow> c # sub_nl_paren cs)"
  by pat_completeness auto
termination
proof (relation "measure length")
  fix c cs r
  assume h: "match_nl_paren (c # cs) = Some r"
  then obtain b t p where "cs = b # t" "dropWhile is_space t = p # r"
    unfolding match_nl_paren_def
    by (simp split: if_splits list.splits)
  moreover have "length (dropWhile is_space t) \<le> length t"
    by (rule length_dropWhile_le)
  ultimately have "length r < length (c # cs)"
    by simp
  then show "(r, c # cs) \<in> measure length"
    by simp
qed auto

text \<open>\<^verbatim>\<open>re.sub(r"\\n", " ", src)\<close>\<close>

fun sub_nl :: "string \<Rightarrow> string" where
  "sub_nl (a # b # r) =
     (if a = bslash \<and> b = CHR ''n'' then CHR '' '' # sub_nl r else a # sub_nl (b # r))"
| "sub_nl s = s"

text \<open>
  \<^verbatim>\<open>(--+[->]?)\|([^|]+)\|\<close> at the head of a string: arrow, label and the text after the
  closing bar. After the greedy run of dashes the optional class can only take \<^verbatim>\<open>>\<close>,
  and only when the bar follows it.
\<close>

definition edge_label :: "string \<Rightarrow> string \<Rightarrow> (string \<times> string \<times> string) option" where
  "edge_label arrow s =
     (case run_then CHR ''|'' s of
        Some (label, r) \<Rightarrow> Some (arrow, label, r)
      | None \<Rightarrow> None)"

definition match_edge :: "string \<Rightarrow> (string \<times> string \<times> string) option" where
  "match_edge s =
     (let ds = takeWhile (\<lambda>c. c = CHR ''-'') s; r = dropWhile (\<lambda>c. c = CHR ''-'') s
      in if length ds < 2 then None
         else
           (case r of
              [] \<Rightarrow> None
            | x # r1 \<Rightarrow>
                if x = CHR ''|'' then edge_label ds r1
                else if x = CHR ''>'' then
                  (case r1 of
                     [] \<Rightarrow> None
                   | b # r2 \<Rightarrow> if b = CHR ''|'' then edge_label (ds @ ''>'') r2 else None)
                else None))"

text \<open>The callback \<^verbatim>\<open>quote_edge_label(match)\<close>, on the two groups of the match.\<close>

definition has_paren :: "string \<Rightarrow> bool" where
  "has_paren label \<longleftrightarrow> CHR ''('' \<in> set label \<or> CHR '')'' \<in> set label"

definition quote_edge_label :: "string \<Rightarrow> string \<Rightarrow> string" where
  "quote_edge_label arrow label =
     (if startswith label [dquote] \<or> \<not> has_paren label
      then arrow @ ''|'' @ label @ ''|''
      else arrow @ ''|'' @ [dquote] @ label @ [dquote] @ ''|'')"

function sub_edge_labels :: "string \<Rightarrow> string" where
  "sub_edge_labels [] = []"
| "sub_edge_labels (c # cs) =
     (case match_edge (c # cs) of
        Some (arrow, label, r) \<Rightarrow> quote_edge_label arrow label @ sub_edge_labels r
      | None \<Rightarrow> c # sub_edge_labels cs)"
  by pat_completeness auto
termination
proof (relation "measure length")
  fix c cs x2 arrow y label r
  assume h: "match_edge (c # cs) = Some x2" "(arrow, y) = x2" "(label, r) = y"
  have rt: "length r' \<le> length s'" if "run_then CHR ''|'' s' = Some (a, r')" for s' a r'
    using that length_dropWhile_le [of "\<lambda>c. c \<noteq> CHR ''|''" s']
    by (auto simp: run_then_def Let_def split: if_splits)
  have key: "length r < length s" if m: "match_edge s = Some (arrow, label, r)" for s
    using m length_dropWhile_le [of "\<lambda>c. c = CHR ''-''" s]
    unfolding match_edge_def edge_label_def Let_def
    by (auto split: if_splits list.splits option.splits dest!: rt)
  from h have "match_edge (c # cs) = Some (arrow, label, r)"
    by simp
  then have "length r < length (c # cs)"
    by (rule key)
  then show "(r, c # cs) \<in> measure length"
    by simp
qed auto

text \<open>
  \<^verbatim>\<open>(\w+)?\[([^\]]+)\]\<close> at the head of a string: the optional identifier (\<^verbatim>\<open>None\<close> when the
  group did not take part in the match), the label and the text after the closing bracket.
\<close>

definition match_node :: "string \<Rightarrow> (string option \<times> string \<times> string) option" where
  "match_node s =
     (let w = takeWhile is_word s; r = dropWhile is_word s
      in case r of
           [] \<Rightarrow> None
         | b # r1 \<Rightarrow>
             if b = CHR ''['' then
               (case run_then CHR '']'' r1 of
                  Some (label, r2) \<Rightarrow> Some (if w = [] then None else Some w, label, r2)
                | None \<Rightarrow> None)
             else None)"

text \<open>An f-string field \<^verbatim>\<open>{prefix}\<close> whose value is a string or \<^verbatim>\<open>None\<close>.\<close>

fun py_format :: "string option \<Rightarrow> string" where
  "py_format None = ''None''"
| "py_format (Some s) = s"

text \<open>\<^verbatim>\<open>match.group(0)\<close> of a node-label match.\<close>

fun node_group0 :: "string option \<Rightarrow> string \<Rightarrow> string" where
  "node_group0 None label = ''['' @ label @ '']''"
| "node_group0 (Some p) label = p @ ''['' @ label @ '']''"

text \<open>The callback \<^verbatim>\<open>quote_node_label(match)\<close>.\<close>

definition quote_node_label :: "string option \<Rightarrow> string \<Rightarrow> string" where
  "quote_node_label prefix label =
     (if startswith label [dquote] then node_group0 prefix label
      else if has_paren label
      then py_format prefix @ ''['' @ [dquote] @ label @ [dquote] @ '']''
      else node_group0 prefix label)"

function sub_node_labels :: "string \<Rightarrow> string" where
  "sub_node_labels [] = []"
| "sub_node_labels (c # cs) =
     (case match_node (c # cs) of
        Some (prefix, label, r) \<Rightarrow> quote_node_label prefix label @ sub_node_labels r
      | None \<Rightarrow> c # sub_node_labels cs)"
  by pat_completeness auto
termination
proof (relation "measure length")
  fix c cs x2 prefix y label r
  assume h: "match_node (c # cs) = Some x2" "(prefix, y) = x2" "(label, r) = y"
  have key: "length r < length s" if m: "match_node s = Some (prefix, label, r)" for s
  proof -
    from m obtain b r1 where
      1: "dropWhile is_word s = b # r1" and
      2: "run_then CHR '']'' r1 = Some (label, r)"
      unfolding match_node_def Let_def
      by (auto split: if_splits list.splits option.splits)
    from 2 have "length r \<le> length (dropWhile (\<lambda>c. c \<noteq> CHR '']'') r1)"
      by (auto simp: run_then_def Let_def split: if_splits)
    also have "\<dots> \<le> length r1"
      by (rule length_dropWhile_le)
    also have "\<dots> < length (dropWhile is_word s)"
      unfolding 1 by simp
    also have "\<dots> \<le> length s"
      by (rule length_dropWhile_le)
    finally show ?thesis .
  qed
  from h have "match_node (c # cs) = Some (prefix, label, r)"
    by simp
  then have "length r < length (c # cs)"
    by (rule key)
  then show "(r, c # cs) \<in> measure length"
    by simp
qed auto

text \<open>\<^verbatim>\<open>mermaid_src = "\n".join(block).strip() + "\n"\<close>\<close>

definition mermaid_source :: "string list \<Rightarrow> string" where
  "mermaid_source block = py_strip (join [CHR 0x0A] block) @ [CHR 0x0A]"

text \<open>The repairs of \<^verbatim>\<open>render_mermaid_blocks\<close>, in the order of the source.\<close>

definition normalize_mermaid :: "flow_dir option \<Rightarrow> string \<Rightarrow> string" where
  "normalize_mermaid flow_direction mermaid_src =
     (let s0 = (case flow_direction of
                  Some d \<Rightarrow> sub_direction (flow_dir_str d) True mermaid_src
                | None \<Rightarrow> mermaid_src);
          s1 = sub_nl_paren s0;
          s2 = sub_nl s1;
          s3 = sub_edge_labels s2;
          s4 = sub_node_labels s3
      in s4)"

section \<open>Rendering diagram blocks\<close>

text \<open>
  What ends the run: \<^verbatim>\<open>die(msg)\<close>, which prints the message and leaves through
  \<^verbatim>\<open>sys.exit(2)\<close>, and an exception that nothing catches (a missing dict key, an error of
  the operating system while a file is written or a program started, output of the
  renderer that cannot be decoded). The interpreter ends with status 1 on the latter.
\<close>

datatype py_exception = KeyError string | OSError | UnicodeDecodeError

datatype abort = SysExit nat string | Uncaught py_exception

fun exit_status :: "abort \<Rightarrow> nat" where
  "exit_status (SysExit code msg) = code"
| "exit_status (Uncaught e) = 1"

definition die :: "string \<Rightarrow> abort + 'a" where
  "die msg = Inl (SysExit 2 (''error: '' @ msg))"

definition fence3 :: string where
  "fence3 = [CHR 0x60, CHR 0x60, CHR 0x60]"

text \<open>\<^verbatim>\<open>MERMAID_FENCE_RE.match(line)\<close>: three backticks, \<^verbatim>\<open>mermaid\<close> in any case, whitespace.\<close>

definition mermaid_fence_re :: "string \<Rightarrow> bool" where
  "mermaid_fence_re line \<longleftrightarrow>
     startswith line fence3 \<and> py_lower (take 7 (drop 3 line)) = ''mermaid'' \<and>
     list_all is_space (drop 10 line)"

text \<open>\<^verbatim>\<open>FENCE_END_RE.match(line)\<close>: three backticks, whitespace.\<close>

definition fence_end_re :: "string \<Rightarrow> bool" where
  "fence_end_re line \<longleftrightarrow> startswith line fence3 \<and> list_all is_space (drop 3 line)"

text \<open>
  The inner loop: the lines up to the first closing fence and the lines after it, or
  \<open>None\<close> when the input ends first.
\<close>

fun take_block :: "string list \<Rightarrow> (string list \<times> string list) option" where
  "take_block [] = None"
| "take_block (l # ls) =
     (if fence_end_re l then Some ([], ls)
      else
        (case take_block ls of
           None \<Rightarrow> None
         | Some (block, rest) \<Rightarrow> Some (l # block, rest)))"

record render_cfg =
  diagrams_dir :: string
  diagram_key_prefix :: string
  width :: nat
  height :: nat
  flow_direction :: "flow_dir option"

text \<open>
  The world outside, as far as one block meets it. \<open>write_text run path content\<close> is the
  outcome of \<^verbatim>\<open>in_mmd.write_text(mermaid_src)\<close>: \<open>None\<close> when the file is written, the
  exception otherwise. \<open>subprocess_run run content cmd\<close> is the outcome of
  \<^verbatim>\<open>subprocess.run(cmd, check=True, stdout=PIPE, stderr=PIPE, text=True)\<close> on the file
  with that content: it returns, or it raises \<^verbatim>\<open>CalledProcessError\<close> (a non-zero exit
  status, with the decoded error output), or it raises something else (\<^verbatim>\<open>OSError\<close>
  when the program cannot be started, \<^verbatim>\<open>UnicodeDecodeError\<close> when its output cannot be
  decoded).
\<close>

datatype run_result = Completed | CalledProcessError string | Raised py_exception

record renderer =
  write_text :: "string \<Rightarrow> string \<Rightarrow> py_exception option"
  subprocess_run :: "string \<Rightarrow> string list \<Rightarrow> run_result"

definition placeholder :: string where
  "placeholder = ''*[Mermaid diagram could not be rendered - check syntax]*''"

definition artifact_stem :: "render_cfg \<Rightarrow> nat \<Rightarrow> string \<Rightarrow> string" where
  "artifact_stem cfg mermaid_idx mermaid_src =
     diagrams_dir cfg @ ''/mermaid-'' @ diagram_key_prefix cfg @ ''-'' @
     str_of_nat mermaid_idx @ ''-'' @ take 12 (sha1_hexdigest mermaid_src)"

definition mmdc_cmd :: "render_cfg \<Rightarrow> string \<Rightarrow> string list" where
  "mmdc_cmd cfg stem =
     [''mmdc'', ''-i'', stem @ ''.mmd'', ''-o'', stem @ ''.png'',
      ''-w'', str_of_nat (width cfg), ''-H'', str_of_nat (height cfg),
      ''-b'', ''transparent'']"

text \<open>
  The body of the outer loop for one block: the line appended to \<^verbatim>\<open>out_lines\<close>, or the
  exception that leaves the function. Only \<^verbatim>\<open>CalledProcessError\<close> is caught (the warning
  it prints goes to the error stream and is not part of the result).
\<close>

definition render_block ::
  "render_cfg \<Rightarrow> renderer \<Rightarrow> nat \<Rightarrow> string list \<Rightarrow> abort + string" where
  "render_block cfg run mermaid_idx block =
     (let mermaid_src = normalize_mermaid (flow_direction cfg) (mermaid_source block);
          stem = artifact_stem cfg mermaid_idx mermaid_src
      in case write_text run (stem @ ''.mmd'') mermaid_src of
           Some e \<Rightarrow> Inl (Uncaught e)
         | None \<Rightarrow>
             (case subprocess_run run mermaid_src (mmdc_cmd cfg stem) of
                Completed \<Rightarrow> Inr (''![]('' @ stem @ ''.png)'')
              | CalledProcessError stderr \<Rightarrow> Inr placeholder
              | Raised e \<Rightarrow> Inl (Uncaught e)))"

text \<open>
  The outer loop of \<^verbatim>\<open>render_mermaid_blocks\<close>, with its state \<^verbatim>\<open>out_lines\<close> and
  \<^verbatim>\<open>mermaid_idx\<close> passed along; the lines still to read stand for the index \<^verbatim>\<open>i\<close>.
\<close>

function render_loop ::
  "render_cfg \<Rightarrow> renderer \<Rightarrow> string list \<Rightarrow> string list \<Rightarrow> nat \<Rightarrow>
   abort + (string list \<times> nat)" where
  "render_loop cfg run [] out_lines mermaid_idx = Inr (out_lines, mermaid_idx)"
| "render_loop cfg run (line # rest) out_lines mermaid_idx =
     (if mermaid_fence_re line then
        (case take_block rest of
           None \<Rightarrow> die (''unterminated '' @ fence3 @ ''mermaid block'')
         | Some (block, rest') \<Rightarrow>
             (case render_block cfg run mermaid_idx block of
                Inl e \<Rightarrow> Inl e
              | Inr out_line \<Rightarrow>
                  render_loop cfg run rest' (out_lines @ [out_line]) (Suc mermaid_idx)))
      else render_loop cfg run rest (out_lines @ [line]) mermaid_idx)"
  by pat_completeness auto
termination
proof (relation "measure (\<lambda>(cfg, run, ls, out_lines, idx). length ls)")
  fix cfg :: render_cfg and run :: renderer and line rest out_lines and mermaid_idx :: nat
    and x2 block rest' out_line
  assume h: "take_block rest = Some x2" "(block, rest') = x2"
  have key: "length r \<le> length ls" if "take_block ls = Some (b, r)" for ls b r
    using that
    by (induction ls arbitrary: b) (auto split: if_splits option.splits)
  from h have "take_block rest = Some (block, rest')"
    by simp
  then have "length rest' \<le> length rest"
    by (rule key)
  then show "((cfg, run, rest', out_lines @ [out_line], Suc mermaid_idx),
              (cfg, run, line # rest, out_lines, mermaid_idx))
             \<in> measure (\<lambda>(cfg, run, ls, out_lines, idx). length ls)"
    by simp
qed auto

definition render_mermaid_blocks ::
  "render_cfg \<Rightarrow> renderer \<Rightarrow> string \<Rightarrow> abort + string" where
  "render_mermaid_blocks cfg run md_text =
     (case render_loop cfg run (splitlines md_text) [] 0 of
        Inl e \<Rightarrow> Inl e
      | Inr (out_lines, mermaid_idx) \<Rightarrow> Inr (join [CHR 0x0A] out_lines @ [CHR 0x0A]))"

section \<open>Heading anchors\<close>

text \<open>
  \<^verbatim>\<open>ATX_HEADING_RE.match(line)\<close> for \<^verbatim>\<open>^(#{1,6})\s+(.+?)\s*$\<close> on a line without a
  newline (the lines come from \<^verbatim>\<open>splitlines\<close>): the two groups. When nothing but
  whitespace follows the marks, the greedy \<^verbatim>\<open>\s+\<close> gives its last character back to the
  title.
\<close>

definition atx_heading_re :: "string \<Rightarrow> (string \<times> string) option" where
  "atx_heading_re line =
     (let hashes = takeWhile (\<lambda>c. c = CHR ''#'') line;
          r = dropWhile (\<lambda>c. c = CHR ''#'') line;
          ws = takeWhile is_space r;
          body = dropWhile is_space r
      in if hashes = [] \<or> 6 < length hashes \<or> ws = [] then None
         else if body \<noteq> [] then Some (hashes, rstrip_by is_space body)
         else if 2 \<le> length ws then Some (hashes, [last ws])
         else None)"

type_synonym heading_counts = "string \<Rightarrow> nat option"

text \<open>\<^verbatim>\<open>make_unique_id(base)\<close>, with the dict \<^verbatim>\<open>heading_counts\<close> passed in and returned.\<close>

definition make_unique_id :: "heading_counts \<Rightarrow> string \<Rightarrow> string \<times> heading_counts" where
  "make_unique_id heading_counts base =
     (let n = (case heading_counts base of None \<Rightarrow> 0 | Some k \<Rightarrow> k) + 1
      in (if n = 1 then base else base @ ''-'' @ str_of_nat n, heading_counts(base \<mapsto> n)))"

text \<open>
  \<^verbatim>\<open>rewrite_heading_line(line)\<close>: the rewritten line, the id it assigned (if it assigned
  one) and the counters.
\<close>

definition rewrite_heading_line ::
  "string \<Rightarrow> heading_counts \<Rightarrow> string \<Rightarrow> string \<times> string option \<times> heading_counts" where
  "rewrite_heading_line file_slug heading_counts line =
     (case atx_heading_re line of
        None \<Rightarrow> (line, None, heading_counts)
      | Some (hashes, title) \<Rightarrow>
          if py_in ''{#'' title then (line, None, heading_counts)
          else
            (let clean_title = py_strip title;
                 base = file_slug @ ''-'' @ slugify clean_title;
                 (hid, counts') = make_unique_id heading_counts base
             in (hashes @ '' '' @ clean_title @ '' {#'' @ hid @ ''}'', Some hid, counts')))"

text \<open>The loop \<^verbatim>\<open>for line in lines: out.append(rewrite_heading_line(line))\<close>.\<close>

fun heading_loop ::
  "string \<Rightarrow> heading_counts \<Rightarrow> string list \<Rightarrow> (string \<times> string option) list" where
  "heading_loop file_slug heading_counts [] = []"
| "heading_loop file_slug heading_counts (line # lines) =
     (case rewrite_heading_line file_slug heading_counts line of
        (line', hid, counts') \<Rightarrow> (line', hid) # heading_loop file_slug counts' lines)"

text \<open>The list \<^verbatim>\<open>out\<close> before it is joined: the top anchor, an empty line, the rewritten lines.\<close>

definition annotated_lines :: "string \<Rightarrow> string list \<Rightarrow> string list" where
  "annotated_lines file_slug lines =
     [''[]{#'' @ file_slug @ ''}'', []] @ map fst (heading_loop file_slug Map.empty lines)"

text \<open>The anchor ids a document receives: the top anchor and the ids of its headings.\<close>

definition assigned_ids :: "string \<Rightarrow> string list \<Rightarrow> string list" where
  "assigned_ids file_slug lines =
     file_slug # List.map_filter snd (heading_loop file_slug Map.empty lines)"

section \<open>Cross-document links\<close>

text \<open>\<^verbatim>\<open>looks_like_url(s)\<close>: \<^verbatim>\<open>^[a-zA-Z][a-zA-Z0-9+\-.]*://\<close> matches, or \<open>s\<close> starts with \<^verbatim>\<open>mailto:\<close>.\<close>

definition scheme_char :: "char \<Rightarrow> bool" where
  "scheme_char c \<longleftrightarrow> is_alpha c \<or> is_digit c \<or> c \<in> set ''+-.''"

definition looks_like_url :: "string \<Rightarrow> bool" where
  "looks_like_url s \<longleftrightarrow>
     (case s of
        [] \<Rightarrow> False
      | c # cs \<Rightarrow> is_alpha c \<and> startswith (dropWhile scheme_char cs) ''://'') \<or>
     startswith s ''mailto:''"

text \<open>\<^verbatim>\<open>split_link_target(target)\<close>: split at the first \<^verbatim>\<open>#\<close>.\<close>

definition split_link_target :: "string \<Rightarrow> string \<times> string" where
  "split_link_target target =
     (if CHR ''#'' \<in> set target
      then (takeWhile (\<lambda>c. c \<noteq> CHR ''#'') target, tl (dropWhile (\<lambda>c. c \<noteq> CHR ''#'') target))
      else (target, []))"

text \<open>\<^verbatim>\<open>path_part.lower().endswith((".md", ".markdown"))\<close>\<close>

definition has_md_ext :: "string \<Rightarrow> bool" where
  "has_md_ext path_part \<longleftrightarrow>
     endswith (py_lower path_part) ''.md'' \<or> endswith (py_lower path_part) ''.markdown''"

text \<open>
  \<^verbatim>\<open>Path(p).name\<close> and \<^verbatim>\<open>Path(p).is_absolute()\<close> on POSIX paths: the parts of a path are
  its components between slashes, without the empty ones and the single dots; the name is
  the last part, or empty when there is none.
\<close>

fun split_from :: "char \<Rightarrow> string \<Rightarrow> string \<Rightarrow> string list" where
  "split_from d cur [] = [rev cur]"
| "split_from d cur (c # cs) =
     (if c = d then rev cur # split_from d [] cs else split_from d (c # cur) cs)"

definition path_parts :: "string \<Rightarrow> string list" where
  "path_parts p = filter (\<lambda>x. x \<noteq> [] \<and> x \<noteq> ''.'') (split_from CHR ''/'' [] p)"

definition path_name :: "string \<Rightarrow> string" where
  "path_name p = (if path_parts p = [] then [] else last (path_parts p))"

definition is_absolute :: "string \<Rightarrow> bool" where
  "is_absolute p \<longleftrightarrow> startswith p ''/''"

text \<open>
  The file system enters \<^verbatim>\<open>repl\<close> at two places: \<^verbatim>\<open>folder_root.name\<close>, and
  \<^verbatim>\<open>(current_file.parent / path_part).resolve()\<close> made relative to the resolved root.
  \<open>resolve_from fs current_file path_part\<close> is the outcome of the second: \<open>Inside rel\<close>
  with the POSIX form of the relative path, \<open>Outside\<close> when \<^verbatim>\<open>relative_to\<close> raises
  \<^verbatim>\<open>ValueError\<close>, \<open>ResolveError\<close> when resolving raises. Documents are named by their
  path relative to the root.
\<close>

datatype resolved = Inside string | Outside | ResolveError

record corpus_fs =
  folder_name :: string
  resolve_from :: "string \<Rightarrow> string \<Rightarrow> resolved"

text \<open>Python's truth value of \<^verbatim>\<open>linked_slug\<close>: \<^verbatim>\<open>None\<close> and the empty string are false.\<close>

fun falsy :: "string option \<Rightarrow> bool" where
  "falsy None \<longleftrightarrow> True"
| "falsy (Some s) \<longleftrightarrow> s = []"

text \<open>The four strategies of \<^verbatim>\<open>repl\<close>, each leaving its result in \<^verbatim>\<open>linked_slug\<close>.\<close>

definition find_linked_slug ::
  "corpus_fs \<Rightarrow> (string \<times> string) list \<Rightarrow> string \<Rightarrow> string \<Rightarrow> string option" where
  "find_linked_slug fs file_slug_by_md_rel current_file path_part =
     (let path_part_normalized = map (\<lambda>c. if c = bslash then CHR ''/'' else c) path_part;
          linked_slug1 = map_of file_slug_by_md_rel path_part_normalized;
          linked_slug2 =
            (if falsy linked_slug1 \<and> \<not> is_absolute path_part then
               (case resolve_from fs current_file path_part of
                  Inside resolved_rel \<Rightarrow> map_of file_slug_by_md_rel resolved_rel
                | Outside \<Rightarrow> linked_slug1
                | ResolveError \<Rightarrow> linked_slug1)
             else linked_slug1);
          linked_slug3 =
            (if falsy linked_slug2 \<and> startswith path_part_normalized (folder_name fs @ ''/'')
             then map_of file_slug_by_md_rel
                    (drop (length (folder_name fs) + 1) path_part_normalized)
             else linked_slug2);
          linked_slug4 =
            (if falsy linked_slug3 \<and> CHR ''/'' \<in> set path_part_normalized then
               (let filename = path_name path_part_normalized;
                    matching_files =
                      filter (\<lambda>rel. path_name rel = filename) (map fst file_slug_by_md_rel)
                in if length matching_files = 1
                   then map_of file_slug_by_md_rel (hd matching_files)
                   else linked_slug3)
             else linked_slug3)
      in linked_slug4)"

text \<open>
  The callback \<^verbatim>\<open>repl(match)\<close> on the two groups of a match; \<^verbatim>\<open>match.group(0)\<close> is
  \<^verbatim>\<open>[label](group2)\<close>.
\<close>

definition link_group0 :: "string \<Rightarrow> string \<Rightarrow> string" where
  "link_group0 label group2 = ''['' @ label @ '']('' @ group2 @ '')''"

definition repl ::
  "corpus_fs \<Rightarrow> (string \<times> string) list \<Rightarrow> string \<Rightarrow> string \<Rightarrow> string \<Rightarrow> string" where
  "repl fs file_slug_by_md_rel current_file label group2 =
     (let target = py_strip group2
      in if looks_like_url target then link_group0 label group2
         else
           (case split_link_target target of
              (p, frag) \<Rightarrow>
                (let path_part = py_strip p
                 in if path_part = [] \<or> startswith path_part ''#'' then link_group0 label group2
                    else if \<not> has_md_ext path_part then link_group0 label group2
                    else
                      (case find_linked_slug fs file_slug_by_md_rel current_file path_part of
                         None \<Rightarrow> link_group0 label group2
                       | Some linked_slug \<Rightarrow>
                           if linked_slug = [] then link_group0 label group2
                           else if frag \<noteq> []
                           then ''['' @ label @ ''](#'' @ linked_slug @ ''-'' @ slugify frag @ '')''
                           else ''['' @ label @ ''](#'' @ linked_slug @ '')''))))"

text \<open>
  \<^verbatim>\<open>MD_LINK_RE\<close>, \<^verbatim>\<open>\[([^\]]+)\]\(([^)]+)\)\<close>, at the head of a string: the two groups and
  the text after the match.
\<close>

definition md_link_re :: "string \<Rightarrow> (string \<times> string \<times> string) option" where
  "md_link_re s =
     (case s of
        [] \<Rightarrow> None
      | c # r \<Rightarrow>
          if c = CHR ''['' then
            (case run_then CHR '']'' r of
               None \<Rightarrow> None
             | Some (label, r1) \<Rightarrow>
                 (case r1 of
                    [] \<Rightarrow> None
                  | p # r2 \<Rightarrow>
                      if p = CHR ''('' then
                        (case run_then CHR '')'' r2 of
                           None \<Rightarrow> None
                         | Some (group2, r3) \<Rightarrow> Some (label, group2, r3))
                      else None))
          else None)"

text \<open>\<^verbatim>\<open>MD_LINK_RE.sub(f, text)\<close>\<close>

function sub_links :: "(string \<Rightarrow> string \<Rightarrow> string) \<Rightarrow> string \<Rightarrow> string" where
  "sub_links f [] = []"
| "sub_links f (c # cs) =
     (case md_link_re (c # cs) of
        Some (label, group2, r) \<Rightarrow> f label group2 @ sub_links f r
      | None \<Rightarrow> c # sub_links f cs)"
  by pat_completeness auto
termination
proof (relation "measure (\<lambda>(f, s). length s)")
  fix f :: "string \<Rightarrow> string \<Rightarrow> string" and c cs x2 label y group2 r
  assume h: "md_link_re (c # cs) = Some x2" "(label, y) = x2" "(group2, r) = y"
  have rt: "length r' \<le> length s'" if "run_then d s' = Some (a, r')" for d s' a r'
    using that length_dropWhile_le [of "\<lambda>c. c \<noteq> d" s']
    by (auto simp: run_then_def Let_def split: if_splits)
  from h have "md_link_re (c # cs) = Some (label, group2, r)"
    by simp
  then have "length r < length (c # cs)"
    unfolding md_link_re_def
    by (auto split: if_splits list.splits option.splits dest!: rt)
  then show "((f, r), (f, c # cs)) \<in> measure (\<lambda>(f, s). length s)"
    by simp
qed auto

text \<open>The matches that \<^verbatim>\<open>MD_LINK_RE.sub\<close> visits in a text, as pairs of their groups.\<close>

function md_links :: "string \<Rightarrow> (string \<times> string) list" where
  "md_links [] = []"
| "md_links (c # cs) =
     (case md_link_re (c # cs) of
        Some (label, group2, r) \<Rightarrow> (label, group2) # md_links r
      | None \<Rightarrow> md_links cs)"
  by pat_completeness auto
termination
proof (relation "measure length")
  fix c cs x2 label y group2 r
  assume h: "md_link_re (c # cs) = Some x2" "(label, y) = x2" "(group2, r) = y"
  have rt: "length r' \<le> length s'" if "run_then d s' = Some (a, r')" for d s' a r'
    using that length_dropWhile_le [of "\<lambda>c. c \<noteq> d" s']
    by (auto simp: run_then_def Let_def split: if_splits)
  from h have "md_link_re (c # cs) = Some (label, group2, r)"
    by simp
  then have "length r < length (c # cs)"
    unfolding md_link_re_def
    by (auto split: if_splits list.splits option.splits dest!: rt)
  then show "(r, c # cs) \<in> measure length"
    by simp
qed auto

definition rewrite_links ::
  "corpus_fs \<Rightarrow> (string \<times> string) list \<Rightarrow> string \<Rightarrow> string \<Rightarrow> string" where
  "rewrite_links fs file_slug_by_md_rel current_file text =
     sub_links (repl fs file_slug_by_md_rel current_file) text"

definition add_ids_and_rewrite_links ::
  "corpus_fs \<Rightarrow> (string \<times> string) list \<Rightarrow> string \<Rightarrow> string \<Rightarrow> string \<Rightarrow> string" where
  "add_ids_and_rewrite_links fs file_slug_by_md_rel file_slug current_file md_text =
     rewrite_links fs file_slug_by_md_rel current_file
       (join [CHR 0x0A] (annotated_lines file_slug (splitlines md_text)) @ [CHR 0x0A])"

subsection \<open>A file system without symbolic links\<close>

text \<open>
  On a file system without symbolic links \<^verbatim>\<open>resolve()\<close> only removes empty components and
  single dots and lets a double dot cancel the component before it. \<open>root\<close> holds the
  components of the absolute path of the corpus root.
\<close>

fun normalize_parts :: "string list \<Rightarrow> string list \<Rightarrow> string list" where
  "normalize_parts acc [] = rev acc"
| "normalize_parts acc (p # ps) =
     (if p = [] \<or> p = ''.'' then normalize_parts acc ps
      else if p = ''..'' then normalize_parts (tl acc) ps
      else normalize_parts (p # acc) ps)"

definition lexical_resolve :: "string list \<Rightarrow> string \<Rightarrow> string \<Rightarrow> resolved" where
  "lexical_resolve root current_file path_part =
     (let parent = butlast (split_from CHR ''/'' [] current_file);
          full = normalize_parts (if is_absolute path_part then [] else rev (root @ parent))
                   (split_from CHR ''/'' [] path_part)
      in if take (length root) full = root
         then Inside (if drop (length root) full = [] then ''.''
                      else join ''/'' (drop (length root) full))
         else Outside)"

section \<open>The run\<close>

definition page_break :: string where
  "page_break =
     [CHR 0x0A] @ fence3 @ ''{=latex}'' @ [CHR 0x0A] @ [bslash] @ ''newpage'' @ [CHR 0x0A] @
     fence3 @ [CHR 0x0A]"

text \<open>
  The loop of \<^verbatim>\<open>main\<close> over \<^verbatim>\<open>enumerate(md_files)\<close>: a document is the pair of its relative
  path and its text; the result is the list \<^verbatim>\<open>parts\<close>. \<open>cfg\<close> carries the temporary diagram
  directory, the scaled width and height and the direction override.
\<close>

fun process_docs ::
  "corpus_fs \<Rightarrow> renderer \<Rightarrow> render_cfg \<Rightarrow> (string \<times> string) list \<Rightarrow> nat \<Rightarrow>
   (string \<times> string) list \<Rightarrow> abort + string list" where
  "process_docs fs run cfg file_slug_by_md_rel idx [] = Inr []"
| "process_docs fs run cfg file_slug_by_md_rel idx ((rel, text) # docs) =
     (case map_of file_slug_by_md_rel rel of
        None \<Rightarrow> Inl (Uncaught (KeyError rel))
      | Some file_slug \<Rightarrow>
          (case render_mermaid_blocks (cfg\<lparr>diagram_key_prefix := file_slug\<rparr>) run text of
             Inl e \<Rightarrow> Inl e
           | Inr text1 \<Rightarrow>
               (let text2 = add_ids_and_rewrite_links fs file_slug_by_md_rel file_slug rel text1
                in case process_docs fs run cfg file_slug_by_md_rel (Suc idx) docs of
                     Inl e \<Rightarrow> Inl e
                   | Inr parts \<Rightarrow>
                       Inr ((if 0 < idx then [page_break] else []) @ [text2] @ parts))))"

text \<open>The text written to \<^verbatim>\<open>combined.md\<close>, or the abort that prevents it.\<close>

definition combined_md ::
  "corpus_fs \<Rightarrow> renderer \<Rightarrow> render_cfg \<Rightarrow> (string \<times> string) list \<Rightarrow> abort + string" where
  "combined_md fs run cfg docs =
     (let file_slug_by_md_rel = build_slug_table (map fst docs)
      in case process_docs fs run cfg file_slug_by_md_rel 0 docs of
           Inl e \<Rightarrow> Inl e
         | Inr parts \<Rightarrow> Inr (join [CHR 0x0A] parts))"

section \<open>The specification's reading, for comparison\<close>

text \<open>
  The repairs in the order in which the specification lists them: line-break escapes
  (rule 1), edge labels (rule 2), node labels (rule 3) and the direction directive last
  (rule 4).
\<close>

definition normalize_spec_order :: "flow_dir option \<Rightarrow> string \<Rightarrow> string" where
  "normalize_spec_order direction mermaid_src =
     (let s1 = sub_nl (sub_nl_paren mermaid_src);
          s2 = sub_edge_labels s1;
          s3 = sub_node_labels s2
      in case direction of
           Some d \<Rightarrow> sub_direction (flow_dir_str d) True s3
         | None \<Rightarrow> s3)"

text \<open>
  The four ways in which a path part names a document, as the specification lists them;
  \<open>rels\<close> are the relative paths of the documents of the corpus. Each gives the relative
  path of the document it finds.
\<close>

definition by_exact_path :: "string list \<Rightarrow> string \<Rightarrow> string option" where
  "by_exact_path rels p = (if p \<in> set rels then Some p else None)"

definition by_own_directory ::
  "corpus_fs \<Rightarrow> string list \<Rightarrow> string \<Rightarrow> string \<Rightarrow> string option" where
  "by_own_directory fs rels current_file path_part =
     (if is_absolute path_part then None
      else
        (case resolve_from fs current_file path_part of
           Inside r \<Rightarrow> if r \<in> set rels then Some r else None
         | Outside \<Rightarrow> None
         | ResolveError \<Rightarrow> None))"

definition by_root_prefix :: "corpus_fs \<Rightarrow> string list \<Rightarrow> string \<Rightarrow> string option" where
  "by_root_prefix fs rels p =
     (if startswith p (folder_name fs @ ''/'') \<and> drop (length (folder_name fs) + 1) p \<in> set rels
      then Some (drop (length (folder_name fs) + 1) p) else None)"

definition by_bare_filename :: "string list \<Rightarrow> string \<Rightarrow> string option" where
  "by_bare_filename rels p =
     (if CHR ''/'' \<in> set p then
        (case filter (\<lambda>rel. path_name rel = path_name p) rels of
           [b] \<Rightarrow> Some b
         | _ \<Rightarrow> None)
      else None)"

text \<open>The strategies are tried in order and the first that finds a document wins.\<close>

fun first_match :: "string option list \<Rightarrow> string option" where
  "first_match [] = None"
| "first_match (Some b # xs) = Some b"
| "first_match (None # xs) = first_match xs"

definition resolve_spec :: "corpus_fs \<Rightarrow> string list \<Rightarrow> string \<Rightarrow> string \<Rightarrow> string option" where
  "resolve_spec fs rels current_file path_part =
     (let p = map (\<lambda>c. if c = bslash then CHR ''/'' else c) path_part
      in first_match
           [by_exact_path rels p,
            by_own_directory fs rels current_file path_part,
            by_root_prefix fs rels p,
            by_bare_filename rels p])"

text \<open>
  The path part and the fragment of a link target, and the gates a target passes before
  any strategy is tried: it does not look like a URL, its path part is not empty and ends
  in a markdown extension.
\<close>

definition link_path_part :: "string \<Rightarrow> string" where
  "link_path_part group2 = py_strip (fst (split_link_target (py_strip group2)))"

definition link_fragment :: "string \<Rightarrow> string" where
  "link_fragment group2 = snd (split_link_target (py_strip group2))"

definition link_candidate :: "string \<Rightarrow> bool" where
  "link_candidate group2 \<longleftrightarrow>
     \<not> looks_like_url (py_strip group2) \<and> link_path_part group2 \<noteq> [] \<and>
     has_md_ext (link_path_part group2)"

definition rewritten_link :: "string \<Rightarrow> string \<Rightarrow> string \<Rightarrow> string" where
  "rewritten_link label slug frag =
     (if frag = [] then ''['' @ label @ ''](#'' @ slug @ '')''
      else ''['' @ label @ ''](#'' @ slug @ ''-'' @ slugify frag @ '')'')"

text \<open>
  An example corpus: the root \<^verbatim>\<open>/srv/docs\<close> on a file system without symbolic links,
  with four documents.
\<close>

definition example_fs :: corpus_fs where
  "example_fs = \<lparr>folder_name = ''docs'', resolve_from = lexical_resolve [''srv'', ''docs'']\<rparr>"

definition example_rels :: "string list" where
  "example_rels = [''index.md'', ''guide/setup.md'', ''api/ref.md'', ''README.md'']"

text \<open>
  No match of the edge pattern starts inside \<open>pre\<close> when \<open>pre\<close> is followed by \<open>s\<close>: the
  scan copies \<open>pre\<close> and arrives at \<open>s\<close>.
\<close>

fun no_edge_match_in :: "string \<Rightarrow> string \<Rightarrow> bool" where
  "no_edge_match_in [] s \<longleftrightarrow> True"
| "no_edge_match_in (c # cs) s \<longleftrightarrow> match_edge (c # cs @ s) = None \<and> no_edge_match_in cs s"

section \<open>Properties\<close>

subsection \<open>Node labels without an identifier\<close>

text \<open>
  C8. The callback \<^verbatim>\<open>quote_node_label\<close> formats group 1 of the match into its result. For a
  label that no identifier precedes, the group took no part in the match and its value is
  \<^verbatim>\<open>None\<close>, although the comment beside it reads "ID or empty": the stadium node
  \<^verbatim>\<open>A([Go (now)])\<close> becomes \<^verbatim>\<open>A(None["Go (now)"])\<close>, so the text around the label is not
  preserved when the identifier is absent.
\<close>

theorem c8_missing_identifier_prints_None:
  "sub_node_labels ''A([Go (now)])'' =
     ''A(None['' @ [dquote] @ ''Go (now)'' @ [dquote] @ ''])'' \<and>
   normalize_mermaid None (mermaid_source [''A([Go (now)]) --> B'']) =
     ''A(None['' @ [dquote] @ ''Go (now)'' @ [dquote] @ '']) --> B'' @ [CHR 0x0A] \<and>
   match_node ''[Go (now)])'' = Some (None, ''Go (now)'', '')'') \<and>
   quote_node_label None ''Go (now)'' \<noteq> ''['' @ [dquote] @ ''Go (now)'' @ [dquote] @ '']''"
  by code_simp

subsection \<open>Heading ids within a document\<close>

lemma slugify_Setup: "slugify ''Setup'' = ''setup''"
  by code_simp

lemma slugify_Setup_2: "slugify ''Setup 2'' = ''setup-2''"
  by code_simp

lemma atx_Setup: "atx_heading_re ''# Setup'' = Some (''#'', ''Setup'')"
  by code_simp

lemma atx_Setup_2: "atx_heading_re ''# Setup 2'' = Some (''#'', ''Setup 2'')"
  by code_simp

lemma strip_Setup: "py_strip ''Setup'' = ''Setup''" "py_strip ''Setup 2'' = ''Setup 2''"
  by code_simp+

lemma no_marker_Setup: "\<not> py_in ''{#'' ''Setup''" "\<not> py_in ''{#'' ''Setup 2''"
  by code_simp+

lemma str_of_nat_2: "str_of_nat 2 = ''2''" "str_of_nat (Suc (Suc 0)) = ''2''"
  by code_simp+

lemma heading_loop_Setup:
  "heading_loop s Map.empty [''# Setup'', ''# Setup'', ''# Setup 2''] =
     [(''# Setup {#'' @ s @ ''-setup}'', Some (s @ ''-setup'')),
      (''# Setup {#'' @ s @ ''-setup-2}'', Some (s @ ''-setup-2'')),
      (''# Setup 2 {#'' @ s @ ''-setup-2}'', Some (s @ ''-setup-2''))]"
  by (simp del: py_in.simps
        add: rewrite_heading_line_def make_unique_id_def atx_Setup atx_Setup_2
          slugify_Setup slugify_Setup_2 strip_Setup no_marker_Setup str_of_nat_2 Let_def)

text \<open>
  C1. \<^verbatim>\<open>make_unique_id\<close> counts the occurrences of each base id and appends the count to a
  repeated one, but never checks the id it returns against the other bases. In the
  document \<^verbatim>\<open>guide.md\<close> with the headings \<^verbatim>\<open>Setup\<close>, \<^verbatim>\<open>Setup\<close>, \<^verbatim>\<open>Setup 2\<close> the second
  heading receives the id ending in \<^verbatim>\<open>-setup-2\<close> from the counter and the third receives
  the same id as its first-occurrence base: four ids are assigned (the top anchor and
  three heading ids) and two of them are equal.
\<close>

theorem c1_repeated_heading_id:
  "assigned_ids (safe_file_slug ''guide.md'') [''# Setup'', ''# Setup'', ''# Setup 2''] =
     [safe_file_slug ''guide.md'',
      safe_file_slug ''guide.md'' @ ''-setup'',
      safe_file_slug ''guide.md'' @ ''-setup-2'',
      safe_file_slug ''guide.md'' @ ''-setup-2''] \<and>
   \<not> distinct (assigned_ids (safe_file_slug ''guide.md'') [''# Setup'', ''# Setup'', ''# Setup 2'']) \<and>
   annotated_lines (safe_file_slug ''guide.md'') [''# Setup'', ''# Setup'', ''# Setup 2''] =
     [''[]{#'' @ safe_file_slug ''guide.md'' @ ''}'', [],
      ''# Setup {#'' @ safe_file_slug ''guide.md'' @ ''-setup}'',
      ''# Setup {#'' @ safe_file_slug ''guide.md'' @ ''-setup-2}'',
      ''# Setup 2 {#'' @ safe_file_slug ''guide.md'' @ ''-setup-2}'']"
  unfolding assigned_ids_def annotated_lines_def heading_loop_Setup
  by (simp add: List.map_filter_simps)

subsection \<open>Order of the diagram repairs\<close>

text \<open>
  C6, as stated, fails. With the override \<^verbatim>\<open>LR\<close> and a block whose first line is
  \<^verbatim>\<open>graph\nTD\<close> (a backslash and the letter n between the keyword and the direction), the
  source rewrites the directive first, finds none, and then turns the escape into a space:
  the result keeps \<^verbatim>\<open>graph TD\<close>. Applying the direction rewrite last, as the claim has it,
  gives \<^verbatim>\<open>graph LR\<close>.
\<close>

theorem c6_direction_last_counterexample:
  "normalize_mermaid (Some LR) (mermaid_source [''graph'' @ [bslash] @ ''nTD'', ''A --> B'']) =
     ''graph TD'' @ [CHR 0x0A] @ ''A --> B'' @ [CHR 0x0A] \<and>
   normalize_spec_order (Some LR) (mermaid_source [''graph'' @ [bslash] @ ''nTD'', ''A --> B'']) =
     ''graph LR'' @ [CHR 0x0A] @ ''A --> B'' @ [CHR 0x0A] \<and>
   normalize_mermaid (Some LR) (mermaid_source [''graph'' @ [bslash] @ ''nTD'', ''A --> B'']) \<noteq>
   normalize_spec_order (Some LR) (mermaid_source [''graph'' @ [bslash] @ ''nTD'', ''A --> B''])"
  by code_simp

text \<open>
  C6, amended. When an override is configured the direction directive is rewritten first,
  on the raw block text; then line-break escapes (rule 1), edge labels (rule 2) and node
  labels (rule 3) are repaired, in that order. Without an override the source and the
  specification's order agree.
\<close>

theorem c6_direction_first:
  "normalize_mermaid direction mermaid_src =
     sub_node_labels (sub_edge_labels (sub_nl (sub_nl_paren
       (case direction of
          None \<Rightarrow> mermaid_src
        | Some d \<Rightarrow> sub_direction (flow_dir_str d) True mermaid_src)))) \<and>
   normalize_mermaid None mermaid_src = normalize_spec_order None mermaid_src"
  by (simp add: normalize_mermaid_def normalize_spec_order_def split: option.splits)

subsection \<open>Edge labels\<close>

lemma takeWhile_run:
  "\<forall>x\<in>set xs. P x \<Longrightarrow> \<not> P y \<Longrightarrow> takeWhile P (xs @ y # r) = xs"
  by (induction xs) auto

lemma dropWhile_run:
  "\<forall>x\<in>set xs. P x \<Longrightarrow> \<not> P y \<Longrightarrow> dropWhile P (xs @ y # r) = y # r"
  by (induction xs) auto

lemma run_then_append:
  "xs \<noteq> [] \<Longrightarrow> d \<notin> set xs \<Longrightarrow> run_then d (xs @ d # r) = Some (xs, r)"
proof -
  assume ne: "xs \<noteq> []" and d: "d \<notin> set xs"
  have t: "takeWhile (\<lambda>c. c \<noteq> d) (xs @ d # r) = xs"
    using d by (intro takeWhile_run) auto
  have dr: "dropWhile (\<lambda>c. c \<noteq> d) (xs @ d # r) = d # r"
    using d by (intro dropWhile_run) auto
  show ?thesis
    using ne by (simp add: run_then_def t dr)
qed

lemma sub_edge_labels_skip:
  "no_edge_match_in pre s \<Longrightarrow> sub_edge_labels (pre @ s) = pre @ sub_edge_labels s"
  by (induction pre) auto

lemma match_edge_arrow:
  assumes n: "2 \<le> n" and gt: "gt = [] \<or> gt = ''>''"
    and l: "label \<noteq> []" "CHR ''|'' \<notin> set label"
  shows "match_edge (replicate n CHR ''-'' @ gt @ ''|'' @ label @ ''|'' @ rest) =
         Some (replicate n CHR ''-'' @ gt, label, rest)"
proof -
  let ?s = "replicate n CHR ''-'' @ gt @ ''|'' @ label @ ''|'' @ rest"
  obtain y r where yr: "gt @ ''|'' @ label @ ''|'' @ rest = y # r" "y \<noteq> CHR ''-''"
    using gt by auto
  have t: "takeWhile (\<lambda>c. c = CHR ''-'') ?s = replicate n CHR ''-''"
    unfolding yr(1) using yr(2) by (intro takeWhile_run) auto
  have d: "dropWhile (\<lambda>c. c = CHR ''-'') ?s = gt @ ''|'' @ label @ ''|'' @ rest"
    unfolding yr(1) using yr(2) by (intro dropWhile_run) auto
  have r: "run_then CHR ''|'' (label @ ''|'' @ rest) = Some (label, rest)"
    using run_then_append [OF l, of rest] by simp
  show ?thesis
    unfolding match_edge_def t d Let_def
    using n gt r by (auto simp: edge_label_def)
qed

lemma sub_edge_labels_match:
  "match_edge s = Some (arrow, label, r) \<Longrightarrow>
   sub_edge_labels s = quote_edge_label arrow label @ sub_edge_labels r"
  by (cases s) (auto simp: match_edge_def)

text \<open>
  C7. An edge label between bars that follows an arrow of two or more dashes, optionally
  ended by \<^verbatim>\<open>>\<close>, is wrapped in double quotes when it does not start with a quote and
  contains a parenthesis; otherwise the arrow and the label are left as they are. The scan
  then continues after the closing bar, where the same holds again. \<open>pre\<close> is any text
  before the arrow in which no match of the pattern starts: it may hold dashes and arrows
  without a label.
\<close>

theorem c7_edge_label_quoting:
  assumes "no_edge_match_in pre (replicate n CHR ''-'' @ gt @ ''|'' @ label @ ''|'' @ rest)"
    and "2 \<le> n" and "gt = [] \<or> gt = ''>''"
    and "label \<noteq> []" and "CHR ''|'' \<notin> set label"
  shows "sub_edge_labels (pre @ replicate n CHR ''-'' @ gt @ ''|'' @ label @ ''|'' @ rest) =
         pre @ replicate n CHR ''-'' @ gt @ ''|'' @
         (if hd label \<noteq> dquote \<and> (CHR ''('' \<in> set label \<or> CHR '')'' \<in> set label)
          then [dquote] @ label @ [dquote] else label) @
         ''|'' @ sub_edge_labels rest"
proof -
  have "sub_edge_labels (pre @ replicate n CHR ''-'' @ gt @ ''|'' @ label @ ''|'' @ rest) =
        pre @ sub_edge_labels (replicate n CHR ''-'' @ gt @ ''|'' @ label @ ''|'' @ rest)"
    using assms(1) by (rule sub_edge_labels_skip)
  also have "sub_edge_labels (replicate n CHR ''-'' @ gt @ ''|'' @ label @ ''|'' @ rest) =
        quote_edge_label (replicate n CHR ''-'' @ gt) label @ sub_edge_labels rest"
    by (rule sub_edge_labels_match) (rule match_edge_arrow [OF assms(2-5)])
  also have "quote_edge_label (replicate n CHR ''-'' @ gt) label =
        replicate n CHR ''-'' @ gt @ ''|'' @
        (if hd label \<noteq> dquote \<and> (CHR ''('' \<in> set label \<or> CHR '')'' \<in> set label)
         then [dquote] @ label @ [dquote] else label) @ ''|''"
    using assms(4) by (cases label) (auto simp: quote_edge_label_def startswith_def has_paren_def)
  finally show ?thesis
    by simp
qed

lemma example_two_edges:
  "no_edge_match_in (''A --> B'' @ [CHR 0x0A] @ ''B '')
     (replicate 2 CHR ''-'' @ ''>'' @ ''|'' @ ''ok (x)'' @ ''|'' @ '' C'')"
  "sub_edge_labels '' C'' = '' C''"
  by code_simp+

text \<open>
  C7 on the second edge of the diagram \<^verbatim>\<open>A --> B\<close>, \<^verbatim>\<open>B -->|ok (x)| C\<close>, on a label that
  is already quoted, and on a label without parentheses.
\<close>

theorem c7_edge_label_quoting_witness:
  "sub_edge_labels (''A --> B'' @ [CHR 0x0A] @ ''B -->|ok (x)| C'') =
     ''A --> B'' @ [CHR 0x0A] @ ''B -->|'' @ [dquote] @ ''ok (x)'' @ [dquote] @ ''| C'' \<and>
   sub_edge_labels (''-->|'' @ [dquote] @ ''ok (x)'' @ [dquote] @ ''|'') =
     ''-->|'' @ [dquote] @ ''ok (x)'' @ [dquote] @ ''|'' \<and>
   sub_edge_labels ''---|plain|'' = ''---|plain|''"
  using c7_edge_label_quoting [OF example_two_edges(1)]
    c7_edge_label_quoting [of "[]" 2 "''>''" "[dquote] @ ''ok (x)'' @ [dquote]" "[]"]
    c7_edge_label_quoting [of "[]" 3 "[]" "''plain''" "[]"]
  by (simp add: dquote_def eval_nat_numeral example_two_edges(2)
        del: sub_edge_labels.simps(2))

subsection \<open>Diagram blocks: render failures and open fences\<close>

lemma take_block_closed:
  "\<forall>x\<in>set block. \<not> fence_end_re x \<Longrightarrow> fence_end_re e \<Longrightarrow>
   take_block (block @ e # post) = Some (block, post)"
  by (induction block) auto

lemma take_block_open:
  "\<forall>x\<in>set ls. \<not> fence_end_re x \<Longrightarrow> take_block ls = None"
  by (induction ls) auto

lemma take_block_append:
  "take_block ls = Some (b, r) \<Longrightarrow> take_block (ls @ xs) = Some (b, r @ xs)"
  by (induction ls arbitrary: b) (auto split: if_splits option.splits)

lemma take_block_suffix:
  assumes "take_block (a @ l # post) = Some (b, r)"
    and "\<not> fence_end_re l" and "\<forall>x\<in>set post. \<not> fence_end_re x"
  shows "\<exists>a'. r = a' @ l # post \<and> length a' < Suc (length a)"
  using assms(1)
proof (induction a arbitrary: b)
  case Nil
  then show ?case
    using assms(2,3) by (simp add: take_block_open)
next
  case (Cons x a)
  show ?case
  proof (cases "fence_end_re x")
    case True
    with Cons.prems have "r = a @ l # post"
      by simp
    then show ?thesis
      by auto
  next
    case False
    with Cons.prems obtain b' where "take_block (a @ l # post) = Some (b', r)"
      by (auto split: option.splits)
    from Cons.IH [OF this] show ?thesis
      by auto
  qed
qed

lemma lower_char_space: "is_space c \<Longrightarrow> lower_char c = c"
  by (auto simp: is_space_def lower_char_def is_upper_def)

lemma mermaid_fence_not_end:
  assumes "mermaid_fence_re l"
  shows "\<not> fence_end_re l"
proof
  assume e: "fence_end_re l"
  from assms have m: "py_lower (take 7 (drop 3 l)) = ''mermaid''"
    by (simp add: mermaid_fence_re_def)
  then obtain c cs where d: "drop 3 l = c # cs"
    by (cases "drop 3 l") (auto simp: py_lower_def)
  with m have "lower_char c = CHR ''m''"
    by (simp add: py_lower_def)
  moreover from e d have "is_space c"
    by (simp add: fence_end_re_def)
  ultimately show False
    using lower_char_space [of c] by (auto simp: is_space_def)
qed

lemma render_loop_prefix:
  "render_loop cfg run pre out_lines idx = Inr (out', k) \<Longrightarrow>
   render_loop cfg run (pre @ rest) out_lines idx = render_loop cfg run rest out' k"
proof (induction cfg run pre out_lines idx rule: render_loop.induct)
  case (1 cfg run out_lines mermaid_idx)
  then show ?case
    by simp
next
  case (2 cfg run line ls out_lines mermaid_idx)
  show ?case
  proof (cases "mermaid_fence_re line")
    case True
    with "2.prems" obtain block r where tb: "take_block ls = Some (block, r)"
      by (cases "take_block ls") (auto simp: die_def)
    then have tb': "take_block (ls @ rest) = Some (block, r @ rest)"
      by (rule take_block_append)
    from "2.prems" True tb obtain out_line where
      rb: "render_block cfg run mermaid_idx block = Inr out_line"
      by (cases "render_block cfg run mermaid_idx block") auto
    from "2.prems" True tb rb have
      "render_loop cfg run r (out_lines @ [out_line]) (Suc mermaid_idx) = Inr (out', k)"
      by simp
    from "2.IH"(1) [OF True tb refl rb this] show ?thesis
      using True tb' rb by simp
  next
    case False
    with "2.prems" have "render_loop cfg run ls (out_lines @ [line]) mermaid_idx = Inr (out', k)"
      by simp
    from "2.IH"(2) [OF False this] show ?thesis
      using False by simp
  qed
qed

lemma render_loop_acc:
  "render_loop cfg run ls (a @ out_lines) idx =
   (case render_loop cfg run ls out_lines idx of
      Inl err \<Rightarrow> Inl err
    | Inr (out, k) \<Rightarrow> Inr (a @ out, k))"
proof (induction cfg run ls out_lines idx rule: render_loop.induct)
  case (1 cfg run out_lines mermaid_idx)
  then show ?case
    by simp
next
  case (2 cfg run line ls out_lines mermaid_idx)
  show ?case
  proof (cases "mermaid_fence_re line")
    case True
    show ?thesis
    proof (cases "take_block ls")
      case None
      with True show ?thesis
        by (simp add: die_def)
    next
      case (Some p)
      obtain block r where p: "p = (block, r)"
        by (cases p)
      show ?thesis
      proof (cases "render_block cfg run mermaid_idx block")
        case (Inl err)
        with True Some p show ?thesis
          by simp
      next
        case (Inr out_line)
        from "2.IH"(1) [OF True Some [unfolded p] refl Inr] show ?thesis
          using True Some p Inr by simp
      qed
    qed
  next
    case False
    from "2.IH"(2) [OF False] show ?thesis
      using False by simp
  qed
qed

lemma render_block_outcome:
  "render_block cfg run idx block =
     (case write_text run
             (artifact_stem cfg idx (normalize_mermaid (flow_direction cfg) (mermaid_source block))
                @ ''.mmd'')
             (normalize_mermaid (flow_direction cfg) (mermaid_source block)) of
        Some x \<Rightarrow> Inl (Uncaught x)
      | None \<Rightarrow>
          (case subprocess_run run (normalize_mermaid (flow_direction cfg) (mermaid_source block))
                  (mmdc_cmd cfg (artifact_stem cfg idx
                     (normalize_mermaid (flow_direction cfg) (mermaid_source block)))) of
             Completed \<Rightarrow>
               Inr (''![]('' @ artifact_stem cfg idx
                      (normalize_mermaid (flow_direction cfg) (mermaid_source block)) @ ''.png)'')
           | CalledProcessError stderr \<Rightarrow> Inr placeholder
           | Raised x \<Rightarrow> Inl (Uncaught x)))"
  by (simp add: render_block_def Let_def)

lemma splitlines_one_block:
  "splitlines (''intro'' @ [CHR 0x0A] @ fence3 @ ''mermaid'' @ [CHR 0x0A] @ ''graph TD'' @
       [CHR 0x0A] @ ''A-->B'' @ [CHR 0x0A] @ fence3 @ [CHR 0x0A] @ ''after'' @ [CHR 0x0A]) =
   [''intro''] @ (fence3 @ ''mermaid'') # [''graph TD'', ''A-->B''] @ fence3 # [''after'']"
  by code_simp

lemma example_fences:
  "mermaid_fence_re (fence3 @ ''mermaid'')"
  "\<forall>x\<in>set [''graph TD'', ''A-->B'']. \<not> fence_end_re x"
  "fence_end_re fence3"
  "\<not> mermaid_fence_re ''intro''"
  "\<not> mermaid_fence_re ''after''"
  "take_block [''graph TD'', ''A-->B'', fence3, ''after''] =
     Some ([''graph TD'', ''A-->B''], [''after''])"
  by code_simp+

text \<open>
  C5, as stated, fails. Only \<^verbatim>\<open>CalledProcessError\<close> is caught around the renderer. When
  the renderer cannot be run for the block of the document below (\<^verbatim>\<open>subprocess.run\<close>
  raises \<^verbatim>\<open>OSError\<close>), the exception leaves \<^verbatim>\<open>render_mermaid_blocks\<close>: there is no
  placeholder, the line after the block is not processed and no text is returned.
\<close>

theorem c5_uncaught_render_failure_counterexample:
  "render_mermaid_blocks
     \<lparr>diagrams_dir = ''/tmp/d'', diagram_key_prefix = ''k'', width = 800, height = 600,
      flow_direction = None\<rparr>
     \<lparr>write_text = (\<lambda>path content. None), subprocess_run = (\<lambda>content cmd. Raised OSError)\<rparr>
     (''intro'' @ [CHR 0x0A] @ fence3 @ ''mermaid'' @ [CHR 0x0A] @ ''graph TD'' @
       [CHR 0x0A] @ ''A-->B'' @ [CHR 0x0A] @ fence3 @ [CHR 0x0A] @ ''after'' @ [CHR 0x0A]) =
   Inl (Uncaught OSError)"
  unfolding render_mermaid_blocks_def splitlines_one_block
  by (simp add: example_fences render_block_outcome)

text \<open>
  C5, amended. Let the lines before a diagram block be processed without abort, with
  output \<open>out_pre\<close> and the ordinal counter at \<open>k\<close>. If the input file is written and the
  renderer ends with a non-zero status (\<^verbatim>\<open>CalledProcessError\<close>), the returned text has the
  placeholder in the block's place, after \<open>out_pre\<close> and before the output for the lines
  after the block, which are processed with the counter at \<open>k + 1\<close>; the failure itself
  aborts nothing. If writing the input file or starting the renderer raises \<^verbatim>\<open>OSError\<close>,
  the exception is not caught and ends the run.
\<close>

theorem c5_render_failure:
  assumes "splitlines md_text = pre @ l # block @ e # post"
    and "render_loop cfg run pre [] 0 = Inr (out_pre, k)"
    and "mermaid_fence_re l"
    and "\<forall>x\<in>set block. \<not> fence_end_re x"
    and "fence_end_re e"
    and "src = normalize_mermaid (flow_direction cfg) (mermaid_source block)"
    and "stem = artifact_stem cfg k src"
  shows "(write_text run (stem @ ''.mmd'') src = None \<and>
          subprocess_run run src (mmdc_cmd cfg stem) = CalledProcessError stderr \<longrightarrow>
          render_mermaid_blocks cfg run md_text =
            (case render_loop cfg run post [] (Suc k) of
               Inl err \<Rightarrow> Inl err
             | Inr (out_post, n) \<Rightarrow>
                 Inr (join [CHR 0x0A] (out_pre @ placeholder # out_post) @ [CHR 0x0A]))) \<and>
         (write_text run (stem @ ''.mmd'') src = Some OSError \<or>
          write_text run (stem @ ''.mmd'') src = None \<and>
          subprocess_run run src (mmdc_cmd cfg stem) = Raised OSError \<longrightarrow>
          render_mermaid_blocks cfg run md_text = Inl (Uncaught OSError))"
proof -
  have step: "render_loop cfg run (pre @ l # block @ e # post) [] 0 =
      (case render_block cfg run k block of
         Inl err \<Rightarrow> Inl err
       | Inr out_line \<Rightarrow> render_loop cfg run post (out_pre @ [out_line]) (Suc k))"
    using render_loop_prefix [OF assms(2), of "l # block @ e # post"]
      assms(3) take_block_closed [OF assms(4,5), of post]
    by simp
  have rb: "render_block cfg run k block =
      (case write_text run (stem @ ''.mmd'') src of
         Some x \<Rightarrow> Inl (Uncaught x)
       | None \<Rightarrow>
           (case subprocess_run run src (mmdc_cmd cfg stem) of
              Completed \<Rightarrow> Inr (''![]('' @ stem @ ''.png)'')
            | CalledProcessError stderr \<Rightarrow> Inr placeholder
            | Raised x \<Rightarrow> Inl (Uncaught x)))"
    unfolding assms(6,7) by (rule render_block_outcome)
  have acc: "render_loop cfg run post (out_pre @ [placeholder]) (Suc k) =
      (case render_loop cfg run post [] (Suc k) of
         Inl err \<Rightarrow> Inl err
       | Inr (out, n) \<Rightarrow> Inr ((out_pre @ [placeholder]) @ out, n))"
    using render_loop_acc [of cfg run post "out_pre @ [placeholder]" "[]" "Suc k"] by simp
  show ?thesis
    unfolding render_mermaid_blocks_def assms(1) step rb
    by (auto simp: acc split: sum.splits)
qed

text \<open>
  C5, amended, on a document with one line, a two-line diagram block and one more line:
  with a renderer that ends with a non-zero status, and with one that cannot be started.
\<close>

theorem c5_render_failure_witness:
  "render_mermaid_blocks
     \<lparr>diagrams_dir = ''/tmp/d'', diagram_key_prefix = ''k'', width = 800, height = 600,
      flow_direction = None\<rparr>
     \<lparr>write_text = (\<lambda>path content. None),
      subprocess_run = (\<lambda>content cmd. CalledProcessError ''Parse error'')\<rparr>
     (''intro'' @ [CHR 0x0A] @ fence3 @ ''mermaid'' @ [CHR 0x0A] @ ''graph TD'' @
       [CHR 0x0A] @ ''A-->B'' @ [CHR 0x0A] @ fence3 @ [CHR 0x0A] @ ''after'' @ [CHR 0x0A]) =
   Inr (''intro'' @ [CHR 0x0A] @ placeholder @ [CHR 0x0A] @ ''after'' @ [CHR 0x0A]) \<and>
   render_mermaid_blocks
     \<lparr>diagrams_dir = ''/tmp/d'', diagram_key_prefix = ''k'', width = 800, height = 600,
      flow_direction = None\<rparr>
     \<lparr>write_text = (\<lambda>path content. Some OSError),
      subprocess_run = (\<lambda>content cmd. Completed)\<rparr>
     (''intro'' @ [CHR 0x0A] @ fence3 @ ''mermaid'' @ [CHR 0x0A] @ ''graph TD'' @
       [CHR 0x0A] @ ''A-->B'' @ [CHR 0x0A] @ fence3 @ [CHR 0x0A] @ ''after'' @ [CHR 0x0A]) =
   Inl (Uncaught OSError)"
proof -
  let ?cfg = "\<lparr>diagrams_dir = ''/tmp/d'', diagram_key_prefix = ''k'', width = 800,
      height = 600, flow_direction = None\<rparr>"
  have 1: "render_loop ?cfg run [''intro''] [] 0 = Inr ([''intro''], 0)" for run
    by (simp add: example_fences)
  have 2: "render_loop ?cfg run [''after''] [] (Suc 0) = Inr ([''after''], Suc 0)" for run
    by (simp add: example_fences)
  show ?thesis
    using
      c5_render_failure [OF splitlines_one_block 1 example_fences(1,2,3) refl refl,
        of "\<lparr>write_text = (\<lambda>path content. None),
             subprocess_run = (\<lambda>content cmd. CalledProcessError ''Parse error'')\<rparr>"
           "''Parse error''", THEN conjunct1]
      c5_render_failure [OF splitlines_one_block 1 example_fences(1,2,3) refl refl,
        of "\<lparr>write_text = (\<lambda>path content. Some OSError),
             subprocess_run = (\<lambda>content cmd. Completed)\<rparr>", THEN conjunct2]
    by (simp add: 2 del: render_loop.simps)
qed

lemma render_loop_exit_status:
  "render_loop cfg run ls out_lines idx = Inl err \<Longrightarrow> exit_status err \<noteq> 0"
proof (induction cfg run ls out_lines idx rule: render_loop.induct)
  case (1 cfg run out_lines mermaid_idx)
  then show ?case
    by simp
next
  case (2 cfg run line ls out_lines mermaid_idx)
  then show ?case
    by (auto simp: die_def render_block_outcome split: if_splits option.splits sum.splits
          run_result.splits)
qed

lemma render_block_quiet:
  assumes "\<forall>path content. write_text run path content = None"
    and "\<forall>content cmd x. subprocess_run run content cmd \<noteq> Raised x"
  shows "render_block cfg run idx block \<noteq> Inl err"
  using assms by (simp add: render_block_outcome split: run_result.splits)

lemma render_loop_quiet_abort:
  assumes "\<forall>path content. write_text run path content = None"
    and "\<forall>content cmd x. subprocess_run run content cmd \<noteq> Raised x"
  shows "render_loop cfg run ls out_lines idx = Inl err \<Longrightarrow>
         err = SysExit 2 (''error: unterminated '' @ fence3 @ ''mermaid block'')"
  using assms
proof (induction cfg run ls out_lines idx rule: render_loop.induct)
  case (1 cfg run out_lines mermaid_idx)
  then show ?case
    by simp
next
  case (2 cfg run line ls out_lines mermaid_idx)
  show ?case
  proof (cases "mermaid_fence_re line")
    case True
    show ?thesis
    proof (cases "take_block ls")
      case None
      with True "2.prems"(1) show ?thesis
        by (simp add: die_def)
    next
      case (Some p)
      obtain block r where p: "p = (block, r)"
        by (cases p)
      show ?thesis
      proof (cases "render_block cfg run mermaid_idx block")
        case (Inl x)
        with render_block_quiet [OF "2.prems"(2,3)] show ?thesis
          by blast
      next
        case (Inr out_line)
        from "2.prems"(1) True Some p Inr
        have "render_loop cfg run r (out_lines @ [out_line]) (Suc mermaid_idx) = Inl err"
          by simp
        from "2.IH"(1) [OF True Some [unfolded p] refl Inr this "2.prems"(2,3)] show ?thesis .
      qed
    qed
  next
    case False
    with "2.prems"(1) have "render_loop cfg run ls (out_lines @ [line]) mermaid_idx = Inl err"
      by simp
    from "2.IH"(2) [OF False this "2.prems"(2,3)] show ?thesis .
  qed
qed

lemma render_loop_unterminated:
  assumes "mermaid_fence_re l" and "\<forall>x\<in>set post. \<not> fence_end_re x"
  shows "\<exists>err. render_loop cfg run (pre @ l # post) out_lines idx = Inl err"
proof (induction "length pre" arbitrary: pre out_lines idx rule: less_induct)
  case less
  show ?case
  proof (cases pre)
    case Nil
    then show ?thesis
      using assms by (simp add: take_block_open die_def)
  next
    case (Cons x pre')
    show ?thesis
    proof (cases "mermaid_fence_re x")
      case True
      show ?thesis
      proof (cases "take_block (pre' @ l # post)")
        case None
        with True Cons show ?thesis
          by (simp add: die_def)
      next
        case (Some p)
        obtain b r where p: "p = (b, r)"
          by (cases p)
        from take_block_suffix [OF Some [unfolded p] mermaid_fence_not_end [OF assms(1)] assms(2)]
        obtain a' where a': "r = a' @ l # post" "length a' < Suc (length pre')"
          by blast
        then have "length a' < length pre"
          using Cons by simp
        from less [OF this] show ?thesis
          using True Cons Some p a'(1) by (simp split: sum.splits)
      qed
    next
      case False
      have "length pre' < length pre"
        using Cons by simp
      from less [OF this] show ?thesis
        using False Cons by simp
    qed
  qed
qed

lemma render_mermaid_blocks_exit_status:
  "render_mermaid_blocks cfg run doc = Inl err \<Longrightarrow> exit_status err \<noteq> 0"
  by (auto simp: render_mermaid_blocks_def split: sum.splits dest: render_loop_exit_status)

lemma render_mermaid_blocks_quiet_abort:
  assumes "\<forall>path content. write_text run path content = None"
    and "\<forall>content cmd x. subprocess_run run content cmd \<noteq> Raised x"
  shows "render_mermaid_blocks cfg run doc = Inl err \<Longrightarrow>
         err = SysExit 2 (''error: unterminated '' @ fence3 @ ''mermaid block'')"
  by (auto simp: render_mermaid_blocks_def split: sum.splits
        dest: render_loop_quiet_abort [OF assms])

lemma render_mermaid_blocks_unterminated:
  assumes "splitlines doc = pre @ l # post"
    and "mermaid_fence_re l" and "\<forall>x\<in>set post. \<not> fence_end_re x"
  shows "\<exists>err. render_mermaid_blocks cfg run doc = Inl err"
  using render_loop_unterminated [OF assms(2,3), of cfg run pre "[]" 0]
  by (auto simp: render_mermaid_blocks_def assms(1))

lemma map_of_fold_update:
  "map_of (fold (\<lambda>rel d. AList.update rel (f rel) d) rels d0) k =
   (if k \<in> set rels then Some (f k) else map_of d0 k)"
  by (induction rels arbitrary: d0) (auto simp: update_conv')

lemma map_of_build_slug_table:
  "map_of (build_slug_table rels) k = (if k \<in> set rels then Some (safe_file_slug k) else None)"
  by (simp add: build_slug_table_def map_of_fold_update)

lemma process_docs_exit_status:
  "process_docs fs run cfg tbl idx docs = Inl err \<Longrightarrow> exit_status err \<noteq> 0"
proof (induction docs arbitrary: idx)
  case Nil
  then show ?case
    by simp
next
  case (Cons d docs)
  obtain r t where d: "d = (r, t)"
    by (cases d)
  from Cons.prems show ?case
    unfolding d
    by (auto simp: Let_def split: option.splits sum.splits
          dest: render_mermaid_blocks_exit_status Cons.IH)
qed

lemma process_docs_quiet_abort:
  assumes "\<forall>path content. write_text run path content = None"
    and "\<forall>content cmd x. subprocess_run run content cmd \<noteq> Raised x"
    and "\<forall>(r, t)\<in>set docs. map_of tbl r \<noteq> None"
  shows "process_docs fs run cfg tbl idx docs = Inl err \<Longrightarrow>
         err = SysExit 2 (''error: unterminated '' @ fence3 @ ''mermaid block'')"
  using assms(3)
proof (induction docs arbitrary: idx)
  case Nil
  then show ?case
    by simp
next
  case (Cons d docs)
  obtain r t where d: "d = (r, t)"
    by (cases d)
  from Cons.prems show ?case
    unfolding d
    by (auto simp: Let_def split: option.splits sum.splits
          dest: render_mermaid_blocks_quiet_abort [OF assms(1,2)] Cons.IH)
qed

lemma process_docs_unterminated:
  assumes "(rel, doc) \<in> set docs"
    and "\<forall>cfg. \<exists>err. render_mermaid_blocks cfg run doc = Inl err"
  shows "\<exists>err. process_docs fs run cfg tbl idx docs = Inl err"
  using assms(1)
proof (induction docs arbitrary: idx)
  case Nil
  then show ?case
    by simp
next
  case (Cons d docs)
  obtain r t where d: "d = (r, t)"
    by (cases d)
  show ?case
  proof (cases "map_of tbl r")
    case None
    then show ?thesis
      using d by simp
  next
    case (Some slug)
    show ?thesis
    proof (cases "render_mermaid_blocks (cfg\<lparr>diagram_key_prefix := slug\<rparr>) run t")
      case (Inl err)
      then show ?thesis
        using d Some by simp
    next
      case (Inr text1)
      with assms(2) have "(r, t) \<noteq> (rel, doc)"
        by (metis Inl_Inr_False prod.inject)
      with Cons.prems d have "(rel, doc) \<in> set docs"
        by auto
      from Cons.IH [OF this, of "Suc idx"] show ?thesis
        using d Some Inr by (auto simp: Let_def)
    qed
  qed
qed

text \<open>
  C9. If the text of some document of the corpus has a line that opens a diagram block and
  no closing fence on any later line, the run aborts with a non-zero exit status and
  produces no combined text, whatever the renderer and the other documents do. Unless an
  exception of the renderer ends the run even earlier, the abort is \<^verbatim>\<open>sys.exit(2)\<close> with
  the message of the unterminated block.
\<close>

theorem c9_unterminated_block_aborts_run:
  assumes "(rel, doc) \<in> set docs"
    and "splitlines doc = pre @ l # post"
    and "mermaid_fence_re l"
    and "\<forall>x\<in>set post. \<not> fence_end_re x"
  shows "\<exists>err. combined_md fs run cfg docs = Inl err \<and> exit_status err \<noteq> 0 \<and>
           ((\<forall>path content. write_text run path content = None) \<and>
            (\<forall>content cmd x. subprocess_run run content cmd \<noteq> Raised x) \<longrightarrow>
            err = SysExit 2 (''error: unterminated '' @ fence3 @ ''mermaid block''))"
proof -
  let ?tbl = "build_slug_table (map fst docs)"
  have look: "\<forall>(r, t)\<in>set docs. map_of ?tbl r \<noteq> None"
    by (force simp: map_of_build_slug_table)
  from process_docs_unterminated [OF assms(1), of run fs cfg ?tbl 0]
    render_mermaid_blocks_unterminated [OF assms(2-4), of _ run]
  obtain err where e: "process_docs fs run cfg ?tbl 0 docs = Inl err"
    by blast
  then have c: "combined_md fs run cfg docs = Inl err"
    by (simp add: combined_md_def)
  have s: "exit_status err \<noteq> 0"
    using e by (rule process_docs_exit_status)
  have q: "err = SysExit 2 (''error: unterminated '' @ fence3 @ ''mermaid block'')"
    if "\<forall>path content. write_text run path content = None"
      and "\<forall>content cmd x. subprocess_run run content cmd \<noteq> Raised x"
    using process_docs_quiet_abort [OF that look e] .
  from c s q show ?thesis
    by blast
qed

lemma splitlines_open_block:
  "splitlines (''x'' @ [CHR 0x0A] @ fence3 @ ''mermaid'' @ [CHR 0x0A] @ ''graph TD'' @ [CHR 0x0A]) =
   [''x''] @ (fence3 @ ''mermaid'') # [''graph TD'']"
  by code_simp

text \<open>
  C9 on a corpus of two documents, the second with an open diagram block, and a renderer
  that raises nothing.
\<close>

theorem c9_unterminated_block_aborts_run_witness:
  "combined_md \<lparr>folder_name = ''docs'', resolve_from = lexical_resolve [''srv'', ''docs'']\<rparr>
     \<lparr>write_text = (\<lambda>path content. None), subprocess_run = (\<lambda>content cmd. Completed)\<rparr>
     \<lparr>diagrams_dir = ''/tmp/d'', diagram_key_prefix = [], width = 800, height = 600,
      flow_direction = None\<rparr>
     [(''a.md'', ''# A'' @ [CHR 0x0A]),
      (''b.md'', ''x'' @ [CHR 0x0A] @ fence3 @ ''mermaid'' @ [CHR 0x0A] @ ''graph TD'' @ [CHR 0x0A])] =
   Inl (SysExit 2 (''error: unterminated '' @ fence3 @ ''mermaid block''))"
proof -
  have 3: "mermaid_fence_re (fence3 @ ''mermaid'')"
    by code_simp
  have 4: "\<forall>x\<in>set [''graph TD'']. \<not> fence_end_re x"
    by (simp add: fence_end_re_def startswith_def fence3_def)
  have 1: "(''b.md'', ''x'' @ [CHR 0x0A] @ fence3 @ ''mermaid'' @ [CHR 0x0A] @ ''graph TD'' @ [CHR 0x0A])
      \<in> set [(''a.md'', ''# A'' @ [CHR 0x0A]),
        (''b.md'', ''x'' @ [CHR 0x0A] @ fence3 @ ''mermaid'' @ [CHR 0x0A] @ ''graph TD'' @ [CHR 0x0A])]"
    by simp
  from c9_unterminated_block_aborts_run [OF 1 splitlines_open_block 3 4,
      of "\<lparr>folder_name = ''docs'', resolve_from = lexical_resolve [''srv'', ''docs'']\<rparr>"
         "\<lparr>write_text = (\<lambda>path content. None), subprocess_run = (\<lambda>content cmd. Completed)\<rparr>"]
  show ?thesis
    by auto
qed

subsection \<open>Link resolution\<close>

lemma safe_file_slug_nonempty: "safe_file_slug rel \<noteq> []"
  by (simp add: safe_file_slug_def Let_def)

lemma keys_fold_update:
  "distinct (map fst d0 @ rels) \<Longrightarrow>
   map fst (fold (\<lambda>rel d. AList.update rel (f rel) d) rels d0) = map fst d0 @ rels"
proof (induction rels arbitrary: d0)
  case Nil
  then show ?case
    by simp
next
  case (Cons a rels)
  from Cons.prems have k: "map fst (AList.update a (f a) d0) = map fst d0 @ [a]"
    by (auto simp: update_keys)
  from Cons.prems have "distinct (map fst (AList.update a (f a) d0) @ rels)"
    unfolding k by auto
  from Cons.IH [OF this] show ?case
    by (simp add: k)
qed

lemma keys_build_slug_table: "distinct rels \<Longrightarrow> map fst (build_slug_table rels) = rels"
  using keys_fold_update [of "[]" rels safe_file_slug] by (simp add: build_slug_table_def)

lemma falsy_lookup:
  "falsy (map_of (build_slug_table rels) k) = (k \<notin> set rels)"
  by (simp add: map_of_build_slug_table safe_file_slug_nonempty)

lemma find_linked_slug_spec:
  assumes "distinct rels"
  shows "find_linked_slug fs (build_slug_table rels) current_file path_part =
         map_option safe_file_slug (resolve_spec fs rels current_file path_part)"
proof -
  let ?p = "map (\<lambda>c. if c = bslash then CHR ''/'' else c) path_part"
  let ?tbl = "build_slug_table rels"
  let ?L = "\<lambda>k. map_of ?tbl k"
  have L: "?L k = (if k \<in> set rels then Some (safe_file_slug k) else None)" for k
    by (rule map_of_build_slug_table)
  have F: "falsy (map_option safe_file_slug x) = (x = None)" for x
    by (cases x) (auto simp: safe_file_slug_nonempty)
  have s1: "?L ?p = map_option safe_file_slug (by_exact_path rels ?p)"
    by (simp add: L by_exact_path_def)
  define l2 where "l2 =
     (if falsy (?L ?p) \<and> \<not> is_absolute path_part then
        (case resolve_from fs current_file path_part of
           Inside resolved_rel \<Rightarrow> ?L resolved_rel
         | Outside \<Rightarrow> ?L ?p
         | ResolveError \<Rightarrow> ?L ?p)
      else ?L ?p)"
  have s2: "l2 = map_option safe_file_slug
      (first_match [by_exact_path rels ?p, by_own_directory fs rels current_file path_part])"
    unfolding l2_def s1 F
    by (auto simp: by_exact_path_def by_own_directory_def L split: resolved.splits)
  define l3 where "l3 =
     (if falsy l2 \<and> startswith ?p (folder_name fs @ ''/'')
      then ?L (drop (length (folder_name fs) + 1) ?p) else l2)"
  have s3: "l3 = map_option safe_file_slug
      (first_match [by_exact_path rels ?p, by_own_directory fs rels current_file path_part,
         by_root_prefix fs rels ?p])"
    unfolding l3_def s2 F
    by (cases "by_exact_path rels ?p"; cases "by_own_directory fs rels current_file path_part")
       (auto simp: by_root_prefix_def L)
  define l4 where "l4 =
     (if falsy l3 \<and> CHR ''/'' \<in> set ?p then
        (let filename = path_name ?p;
             matching_files = filter (\<lambda>rel. path_name rel = filename) (map fst ?tbl)
         in if length matching_files = 1 then ?L (hd matching_files) else l3)
      else l3)"
  have m: "(case xs of [b] \<Rightarrow> Some b | _ \<Rightarrow> None) =
           (if length xs = 1 then Some (hd xs) else None)" for xs :: "string list"
    by (cases xs rule: list.exhaust [case_names Nil Cons]) (auto split: list.splits)
  have hdin: "hd (filter P rels) \<in> set rels" if "length (filter P rels) = Suc 0" for P
  proof -
    from that have "filter P rels \<noteq> []"
      by auto
    then have "hd (filter P rels) \<in> set (filter P rels)"
      by (rule hd_in_set)
    then show ?thesis
      by simp
  qed
  have s4: "l4 = map_option safe_file_slug (resolve_spec fs rels current_file path_part)"
    unfolding l4_def s3 F resolve_spec_def Let_def keys_build_slug_table [OF assms]
    by (cases "by_exact_path rels ?p"; cases "by_own_directory fs rels current_file path_part";
        cases "by_root_prefix fs rels ?p")
       (auto simp: by_bare_filename_def m L hdin)
  show ?thesis
    unfolding find_linked_slug_def Let_def s4 [symmetric] l4_def l3_def l2_def
    by (rule refl)
qed

lemma set_py_strip: "set (py_strip s) \<subseteq> set s"
proof -
  have "set (rev (dropWhile P (rev (dropWhile P s)))) \<subseteq> set s" for P :: "char \<Rightarrow> bool"
    by (auto dest!: set_dropWhileD)
  then show ?thesis
    by (simp add: py_strip_def strip_by_def rstrip_by_def lstrip_by_def)
qed

lemma no_hash_in_path_part: "CHR ''#'' \<notin> set (fst (split_link_target t))"
  by (auto simp: split_link_target_def dest: set_takeWhileD)

lemma path_part_not_anchor: "\<not> startswith (link_path_part g) ''#''"
proof
  assume "startswith (link_path_part g) ''#''"
  then have "CHR ''#'' \<in> set (link_path_part g)"
    by (cases "link_path_part g") (auto simp: startswith_def)
  then show False
    using set_py_strip no_hash_in_path_part unfolding link_path_part_def by blast
qed

lemma repl_spec:
  assumes "distinct rels"
  shows "repl fs (build_slug_table rels) current_file label group2 =
         (if link_candidate group2 then
            (case resolve_spec fs rels current_file (link_path_part group2) of
               Some b \<Rightarrow> rewritten_link label (safe_file_slug b) (link_fragment group2)
             | None \<Rightarrow> link_group0 label group2)
          else link_group0 label group2)"
proof -
  obtain p frag where sp: "split_link_target (py_strip group2) = (p, frag)"
    by (cases "split_link_target (py_strip group2)")
  then have pp: "py_strip p = link_path_part group2" and fr: "frag = link_fragment group2"
    by (simp_all add: link_path_part_def link_fragment_def)
  show ?thesis
    unfolding repl_def Let_def sp prod.case pp find_linked_slug_spec [OF assms]
    using path_part_not_anchor [of group2]
    by (auto simp: link_candidate_def rewritten_link_def fr safe_file_slug_nonempty
          split: option.splits)
qed


lemma example_distinct: "distinct example_rels"
  by code_simp








lemma run_then_shape: "run_then d s = Some (a, r) \<Longrightarrow> s = a @ d # r"
proof -
  assume h: "run_then d s = Some (a, r)"
  let ?P = "\<lambda>c. c \<noteq> d"
  from h have a: "a = takeWhile ?P s" and ne: "dropWhile ?P s \<noteq> []" and r: "r = tl (dropWhile ?P s)"
    by (auto simp: run_then_def Let_def split: if_splits)
  from ne have "\<not> ?P (hd (dropWhile ?P s))"
    by (rule hd_dropWhile)
  with ne r have "dropWhile ?P s = d # r"
    by (cases "dropWhile ?P s") auto
  with a show ?thesis
    using takeWhile_dropWhile_id [of ?P s] by simp
qed

lemma md_link_re_shape:
  "md_link_re s = Some (label, group2, r) \<Longrightarrow> s = link_group0 label group2 @ r"
  by (auto simp: md_link_re_def link_group0_def split: list.splits if_splits option.splits
        dest!: run_then_shape)

lemma sub_links_unchanged:
  "\<forall>(label, group2)\<in>set (md_links doc). f label group2 = link_group0 label group2 \<Longrightarrow>
   sub_links f doc = doc"
proof (induction f doc rule: sub_links.induct)
  case (1 f)
  then show ?case
    by simp
next
  case (2 f c cs)
  show ?case
  proof (cases "md_link_re (c # cs)")
    case None
    with "2.prems" have
      "\<forall>(label, group2)\<in>set (md_links cs). f label group2 = link_group0 label group2"
      by simp
    from "2.IH"(1) [OF None this] show ?thesis
      using None by simp
  next
    case (Some m)
    obtain label group2 r where m: "m = (label, group2, r)"
      by (cases m)
    from "2.prems" Some m have f: "f label group2 = link_group0 label group2"
      and r: "\<forall>(label, group2)\<in>set (md_links r). f label group2 = link_group0 label group2"
      by auto
    have "sub_links f (c # cs) = f label group2 @ sub_links f r"
      using Some m by simp
    also have "\<dots> = link_group0 label group2 @ r"
      using "2.IH"(2) [OF Some [unfolded m] refl refl r] f by simp
    also have "\<dots> = c # cs"
      using md_link_re_shape [OF Some [unfolded m]] by simp
    finally show ?thesis .
  qed
qed

text \<open>
  C4. A link whose path part none of the four strategies resolves to a document is
  returned exactly as it was matched, and a text in which no link resolves is returned
  unchanged by the whole substitution. This holds for every answer of the file system,
  including a failure to resolve the path; the callback has no other outcome than a string.
\<close>

theorem c4_unresolved_link_unchanged:
  assumes "distinct rels"
  shows "(resolve_spec fs rels current_file (link_path_part target) = None \<longrightarrow>
          repl fs (build_slug_table rels) current_file label target =
            ''['' @ label @ '']('' @ target @ '')'') \<and>
         ((\<forall>(label, target)\<in>set (md_links doc).
             resolve_spec fs rels current_file (link_path_part target) = None) \<longrightarrow>
          rewrite_links fs (build_slug_table rels) current_file doc = doc)"
proof -
  have 1: "repl fs (build_slug_table rels) current_file l t = link_group0 l t"
    if "resolve_spec fs rels current_file (link_path_part t) = None" for l t
    using that by (simp add: repl_spec [OF assms])
  have 2: "rewrite_links fs (build_slug_table rels) current_file doc = doc"
    if "\<forall>(label, target)\<in>set (md_links doc).
          resolve_spec fs rels current_file (link_path_part target) = None"
    unfolding rewrite_links_def
    using that by (intro sub_links_unchanged) (auto simp: 1)
  from 1 2 show ?thesis
    by (simp add: link_group0_def)
qed

lemma example_unresolved:
  "resolve_spec example_fs example_rels ''guide/setup.md'' (link_path_part ''missing/page.md'') = None"
  "md_links ''See [a](missing/page.md) and [b](notes.txt).'' =
     [(''a'', ''missing/page.md''), (''b'', ''notes.txt'')]"
  "resolve_spec example_fs example_rels ''guide/setup.md'' (link_path_part ''notes.txt'') = None"
  by code_simp+

text \<open>
  C4 in the example corpus: a link to a path with no document, alone and inside a text.
\<close>

theorem c4_unresolved_link_unchanged_witness:
  "repl example_fs (build_slug_table example_rels) ''guide/setup.md'' ''a'' ''missing/page.md'' =
     ''[a](missing/page.md)'' \<and>
   rewrite_links example_fs (build_slug_table example_rels) ''guide/setup.md''
     ''See [a](missing/page.md) and [b](notes.txt).'' =
     ''See [a](missing/page.md) and [b](notes.txt).''"
  using
    c4_unresolved_link_unchanged [OF example_distinct, of example_fs "''guide/setup.md''"
      "''missing/page.md''" "''a''" "''See [a](missing/page.md) and [b](notes.txt).''"]
  unfolding example_unresolved(2)
  by (simp add: example_unresolved(1,3))

subsection \<open>Heading lines\<close>

lemma make_unique_id_form:
  "fst (make_unique_id c base) = base \<or>
   (\<exists>n\<ge>2. fst (make_unique_id c base) = base @ ''-'' @ str_of_nat n)"
proof (cases "c base")
  case None
  then show ?thesis
    by (simp add: make_unique_id_def)
next
  case (Some k)
  show ?thesis
  proof (cases k)
    case 0
    with Some show ?thesis
      by (simp add: make_unique_id_def)
  next
    case (Suc j)
    with Some have "fst (make_unique_id c base) = base @ ''-'' @ str_of_nat (Suc (Suc j))"
      by (simp add: make_unique_id_def)
    moreover have "2 \<le> Suc (Suc j)"
      by simp
    ultimately show ?thesis
      by blast
  qed
qed

lemma rewrite_heading_line_heading:
  assumes "atx_heading_re line = Some (hashes, title)" and "\<not> py_in ''{#'' title"
  shows "\<exists>hid. rewrite_heading_line s c line =
           (hashes @ '' '' @ py_strip title @ '' {#'' @ hid @ ''}'', Some hid,
            snd (make_unique_id c (s @ ''-'' @ slugify (py_strip title)))) \<and>
         (hid = s @ ''-'' @ slugify (py_strip title) \<or>
          (\<exists>n\<ge>2. hid = s @ ''-'' @ slugify (py_strip title) @ ''-'' @ str_of_nat n))"
proof -
  let ?base = "s @ ''-'' @ slugify (py_strip title)"
  have "rewrite_heading_line s c line =
          (hashes @ '' '' @ py_strip title @ '' {#'' @ fst (make_unique_id c ?base) @ ''}'',
           Some (fst (make_unique_id c ?base)), snd (make_unique_id c ?base))"
    using assms by (simp add: rewrite_heading_line_def Let_def split_beta)
  with make_unique_id_form [of c ?base] show ?thesis
    by auto
qed

lemma heading_loop_nth:
  "i < length lines \<Longrightarrow>
   \<exists>c. heading_loop s c0 lines ! i =
        (fst (rewrite_heading_line s c (lines ! i)), fst (snd (rewrite_heading_line s c (lines ! i))))"
proof (induction lines arbitrary: c0 i)
  case Nil
  then show ?case
    by simp
next
  case (Cons line lines)
  obtain l' h c' where r: "rewrite_heading_line s c0 line = (l', h, c')"
    by (cases "rewrite_heading_line s c0 line")
  show ?case
  proof (cases i)
    case 0
    with r show ?thesis
      by (auto intro: exI [of _ c0])
  next
    case (Suc j)
    with Cons.prems have "j < length lines"
      by simp
    from Cons.IH [OF this, of c'] show ?thesis
      using r Suc by simp
  qed
qed

lemma length_heading_loop: "length (heading_loop s c lines) = length lines"
  by (induction lines arbitrary: c) (auto split: prod.splits)

lemma atx_python_comment: "atx_heading_re ''# install deps'' = Some (''#'', ''install deps'')"
  by code_simp

lemma no_marker_python_comment: "\<not> py_in ''{#'' ''install deps''"
  by code_simp

lemma slug_python_comment: "slugify ''install deps'' = ''install-deps''"
  "py_strip ''install deps'' = ''install deps''"
  by code_simp+

subsection \<open>Heading annotations in the returned text\<close>

lemma startswith_iff: "startswith s p \<longleftrightarrow> (\<exists>b. s = p @ b)"
proof
  assume "startswith s p"
  then have "s = p @ drop (length p) s"
    by (metis append_take_drop_id startswith_def)
  then show "\<exists>b. s = p @ b" ..
next
  assume "\<exists>b. s = p @ b"
  then show "startswith s p"
    by (auto simp: startswith_def)
qed

lemma py_in_iff: "py_in x s \<longleftrightarrow> (\<exists>a b. s = a @ x @ b)"
proof (induction s)
  case Nil
  then show ?case
    by simp
next
  case (Cons c cs)
  have "(\<exists>a b. c # cs = a @ x @ b) \<longleftrightarrow> (\<exists>b. c # cs = x @ b) \<or> (\<exists>a b. cs = a @ x @ b)"
    by (auto simp: Cons_eq_append_conv) 
  with Cons show ?case
    by (simp add: startswith_iff)
qed

lemma inside_separated:
  assumes "d \<notin> set x" and "xs @ d # ys = a @ x @ b"
  shows "(\<exists>a' b'. xs = a' @ x @ b') \<or> (\<exists>a' b'. ys = a' @ x @ b')"
  using assms(2)
proof (induction xs arbitrary: a)
  case Nil
  show ?case
  proof (cases a)
    case Nil
    with Nil.prems assms(1) have "x = []"
      by (cases x) auto
    then show ?thesis
      by simp
  next
    case (Cons e a')
    with Nil.prems have "ys = a' @ x @ b"
      by simp
    then show ?thesis
      by blast
  qed
next
  case (Cons e xs)
  show ?case
  proof (cases a)
    case Nil
    with Cons.prems have "x @ b = (e # xs) @ d # ys"
      by simp
    from this [unfolded append_eq_append_conv2]
    consider u where "x = (e # xs) @ u" "u @ b = d # ys"
      | u where "x @ u = e # xs" "b = u @ d # ys"
      by blast
    then show ?thesis
    proof cases
      case 1
      with assms(1) have "u = []"
        by (cases u) auto
      with 1 have "e # xs = [] @ x @ []"
        by simp
      then show ?thesis
        by blast
    next
      case 2
      then have "e # xs = [] @ x @ u"
        by simp
      then show ?thesis
        by blast
    qed
  next
    case (Cons e' a')
    with Cons.prems have "xs @ d # ys = a' @ x @ b" and "e' = e"
      by simp_all
    from Cons.IH [OF this(1)] show ?thesis
    proof
      assume "\<exists>a'' b'. xs = a'' @ x @ b'"
      then obtain a'' b' where "xs = a'' @ x @ b'"
        by blast
      then have "e # xs = (e # a'') @ x @ b'"
        by simp
      then show ?thesis
        by blast
    next
      assume "\<exists>a' b'. ys = a' @ x @ b'"
      then show ?thesis
        by blast
    qed
  qed
qed

lemma sub_links_plain:
  "CHR ''['' \<notin> set x \<Longrightarrow> sub_links f (x @ b) = x @ sub_links f b"
  by (induction x) (auto simp: md_link_re_def)

lemma md_links_rest:
  "md_link_re (c # cs) = Some (label, group2, r) \<Longrightarrow>
   md_links (c # cs) = (label, group2) # md_links r"
  "md_link_re (c # cs) = None \<Longrightarrow> md_links (c # cs) = md_links cs"
  by simp_all

lemma repl_keeps_label:
  "\<exists>rest. repl fs tbl current_file label group2 = ''['' @ label @ '']'' @ rest"
  by (auto simp: repl_def Let_def link_group0_def split: prod.splits option.splits)

lemma sub_links_keeps:
  assumes "set x \<inter> set ''[]()'' = {}"
  shows "\<forall>label group2. \<exists>rest. f label group2 = ''['' @ label @ '']'' @ rest \<Longrightarrow>
         doc = a @ x @ b \<Longrightarrow>
         \<forall>(label, group2)\<in>set (md_links doc).
           (\<exists>a' b'. group2 = a' @ x @ b') \<longrightarrow> f label group2 = link_group0 label group2 \<Longrightarrow>
         \<exists>a' b'. sub_links f doc = a' @ x @ b'"
proof (induction f doc arbitrary: a b rule: sub_links.induct)
  case (1 f)
  then show ?case
    by simp
next
  case (2 f c cs)
  have nb: "CHR ''['' \<notin> set x" "CHR '']'' \<notin> set x" "CHR ''('' \<notin> set x" "CHR '')'' \<notin> set x"
    using assms(1) by auto
  show ?case
  proof (cases "md_link_re (c # cs)")
    case None
    show ?thesis
    proof (cases a)
      case Nil
      with "2.prems"(2) have "sub_links f (c # cs) = x @ sub_links f b"
        using sub_links_plain [OF nb(1), of f b] by simp
      then have "sub_links f (c # cs) = [] @ x @ sub_links f b"
        by simp
      then show ?thesis
        by blast
    next
      case (Cons e a')
      with "2.prems"(2) have cs: "cs = a' @ x @ b"
        by simp
      from "2.prems"(3) None have
        "\<forall>(label, group2)\<in>set (md_links cs).
           (\<exists>a' b'. group2 = a' @ x @ b') \<longrightarrow> f label group2 = link_group0 label group2"
        by simp
      from "2.IH"(1) [OF None "2.prems"(1) cs this] obtain a'' b' where
        "sub_links f cs = a'' @ x @ b'"
        by blast
      with None have "sub_links f (c # cs) = (c # a'') @ x @ b'"
        by simp
      then show ?thesis
        by blast
    qed
  next
    case (Some m)
    obtain label group2 r where m: "m = (label, group2, r)"
      by (cases m)
    from Some m have re: "md_link_re (c # cs) = Some (label, group2, r)"
      by simp
    from md_link_re_shape [OF re] have
      shape: "c # cs = [] @ CHR ''['' # (label @ CHR '']'' # ([] @ CHR ''('' # (group2 @ CHR '')'' # r)))"
      by (simp add: link_group0_def)
    from "2.prems"(1) obtain rest where f: "f label group2 = ''['' @ label @ '']'' @ rest"
      by blast
    have out: "sub_links f (c # cs) = f label group2 @ sub_links f r"
      using re by simp
    have hyp: "\<forall>(label, group2)\<in>set (md_links (c # cs)).
           (\<exists>a' b'. group2 = a' @ x @ b') \<longrightarrow> f label group2 = link_group0 label group2"
      using "2.prems"(3) .
    have links: "md_links (c # cs) = (label, group2) # md_links r"
      using re by simp
    from "2.prems"(2) shape have "[] @ CHR ''['' # (label @ CHR '']'' # ([] @ CHR ''('' # (group2 @ CHR '')'' # r))) = a @ x @ b"
      by simp
    from inside_separated [OF nb(1) this]
    consider "x = []" | a1 b1 where "label @ CHR '']'' # ([] @ CHR ''('' # (group2 @ CHR '')'' # r)) = a1 @ x @ b1"
      by auto
    then show ?thesis
    proof cases
      case 1
      then have "sub_links f (c # cs) = [] @ x @ sub_links f (c # cs)"
        by simp
      then show ?thesis
        by blast
    next
      case 2
      from inside_separated [OF nb(2) 2]
      consider a2 b2 where "label = a2 @ x @ b2"
        | a2 b2 where "[] @ CHR ''('' # (group2 @ CHR '')'' # r) = a2 @ x @ b2"
        by auto
      then show ?thesis
      proof cases
        case 1
        with out f have "sub_links f (c # cs) = (''['' @ a2) @ x @ (b2 @ '']'' @ rest @ sub_links f r)"
          by simp
        then show ?thesis
          by blast
      next
        case 2
        from inside_separated [OF nb(3) 2]
        consider "x = []" | a3 b3 where "group2 @ CHR '')'' # r = a3 @ x @ b3"
          by auto
        then show ?thesis
        proof cases
          case 1
          then have "sub_links f (c # cs) = [] @ x @ sub_links f (c # cs)"
            by simp
          then show ?thesis
            by blast
        next
          case 2
          from inside_separated [OF nb(4) 2]
          consider a4 b4 where "group2 = a4 @ x @ b4" | a4 b4 where "r = a4 @ x @ b4"
            by auto
          then show ?thesis
          proof cases
            case 1
            with hyp links have "f label group2 = link_group0 label group2"
              by auto
            with out 1 have "sub_links f (c # cs) =
                (''['' @ label @ '']('' @ a4) @ x @ (b4 @ '')'' @ sub_links f r)"
              by (simp add: link_group0_def)
            then show ?thesis
              by blast
          next
            case 2
            from hyp links have
              "\<forall>(label, group2)\<in>set (md_links r).
                 (\<exists>a' b'. group2 = a' @ x @ b') \<longrightarrow> f label group2 = link_group0 label group2"
              by simp
            from "2.IH"(2) [OF re refl refl "2.prems"(1) 2 this] obtain a5 b5 where
              "sub_links f r = a5 @ x @ b5"
              by blast
            with out have "sub_links f (c # cs) = (f label group2 @ a5) @ x @ b5"
              by simp
            then show ?thesis
              by blast
          qed
        qed
      qed
    qed
  qed
qed

lemma set_strip_by: "set (strip_by P s) \<subseteq> set s"
proof -
  have "set (rev (dropWhile P (rev (dropWhile P s)))) \<subseteq> set (dropWhile P s)"
    using set_dropWhileD [of _ P "rev (dropWhile P s)"] by auto
  moreover have "set (dropWhile P s) \<subseteq> set s"
    using set_dropWhileD [of _ P s] by auto
  ultimately show ?thesis
    by (auto simp: strip_by_def rstrip_by_def lstrip_by_def)
qed

lemma set_collapse_seps: "set (collapse_seps s) \<subseteq> insert CHR ''-'' (set s)"
proof (induction s rule: collapse_seps.induct)
  case 1
  then show ?case
    by simp
next
  case (2 c cs)
  show ?case
  proof (cases "is_sep c")
    case True
    have "set (dropWhile is_sep cs) \<subseteq> set cs"
      using set_dropWhileD [of _ is_sep cs] by auto
    with "2.IH"(1) [OF True] True show ?thesis
      by auto
  next
    case False
    with "2.IH"(2) [OF False] show ?thesis
      by auto
  qed
qed

lemma slugify_no_brackets: "set (slugify s) \<inter> set ''[]()'' = {}"
proof -
  let ?P = "\<lambda>c. is_lower c \<or> is_digit c \<or> is_space c \<or> c = CHR ''-''"
  define s3 where "s3 = filter (\<lambda>c. c \<notin> set [CHR 0x60, CHR ''*'', CHR ''_'', CHR ''~''])
    (remove_tags (py_lower (py_strip s)))"
  define s5 where "s5 = strip_by (\<lambda>c. c = CHR ''-'') (collapse_seps (filter ?P s3))"
  have sl: "slugify s = (if s5 = [] then ''section'' else s5)"
    by (simp only: slugify_def Let_def s3_def s5_def)
  have p: "c \<notin> set ''[]()''" if "?P c" for c
    using that by (auto simp: is_lower_def is_digit_def is_space_def)
  have "set s5 \<subseteq> insert CHR ''-'' (set (filter ?P s3))"
    unfolding s5_def
    using set_strip_by [of "\<lambda>c. c = CHR ''-''" "collapse_seps (filter ?P s3)"]
      set_collapse_seps [of "filter ?P s3"]
    by blast
  then have "c \<notin> set ''[]()''" if "c \<in> set s5" for c
    using that p [of c] by (cases "c = CHR ''-''") auto
  then have "set s5 \<inter> set ''[]()'' = {}"
    by blast
  then show ?thesis
    unfolding sl by (cases "s5 = []") simp_all
qed

lemma str_of_nat_no_brackets: "set (str_of_nat n) \<inter> set ''[]()'' = {}"
proof (induction n rule: str_of_nat.induct)
  case (1 n)
  have "n mod 10 < length ''0123456789''"
    by simp
  then have "digit_char n \<in> set ''0123456789''"
    unfolding digit_char_def by (rule nth_mem)
  then have d: "digit_char n \<notin> set ''[]()''"
    by auto
  show ?case
  proof (cases "n < 10")
    case True
    with d show ?thesis
      by (subst str_of_nat.simps) simp
  next
    case False
    with d "1.IH" show ?thesis
      by (subst str_of_nat.simps) auto
  qed
qed

lemma join_nth:
  "k < length xs \<Longrightarrow> \<exists>a b. join [d] xs @ [d] = a @ xs ! k @ [d] @ b"
proof (induction "[d]" xs arbitrary: k rule: join.induct)
  case 1
  then show ?case
    by simp
next
  case (2 x)
  then have "join [d] [x] @ [d] = [] @ [x] ! k @ [d] @ []"
    by simp
  then show ?case
    by blast
next
  case (3 x y ys)
  show ?case
  proof (cases k)
    case 0
    then have "join [d] (x # y # ys) @ [d] = [] @ (x # y # ys) ! k @ [d] @ (join [d] (y # ys) @ [d])"
      by simp
    then show ?thesis
      by blast
  next
    case (Suc j)
    with "3.prems" have "j < length (y # ys)"
      by simp
    from "3.hyps" [OF this] obtain a b where "join [d] (y # ys) @ [d] = a @ (y # ys) ! j @ [d] @ b"
      by blast
    with Suc have "join [d] (x # y # ys) @ [d] = (x @ [d] @ a) @ (x # y # ys) ! k @ [d] @ b"
      by simp
    then show ?thesis
      by blast
  qed
qed

text \<open>
  C10, as stated, fails: the link pattern matches across line ends, and a rewritten link
  takes the text that it replaces with it. In the document below the first line matches
  the heading pattern, its title has no \<^verbatim>\<open>{#\<close>, and the line is given the id
  \<^verbatim>\<open>notes-foo-lindexmdfrag\<close>; but the link that opens in the title ends on the next line,
  it resolves to \<^verbatim>\<open>index.md\<close>, and the returned text has no annotation for the line.
\<close>

theorem c10_annotation_inside_link_counterexample:
  "atx_heading_re ''# foo [l](index.md#frag'' = Some (''#'', ''foo [l](index.md#frag'') \<and>
   \<not> py_in ''{#'' ''foo [l](index.md#frag'' \<and>
   annotated_lines ''notes'' (splitlines (''# foo [l](index.md#frag'' @ [CHR 0x0A] @ ''x)'' @ [CHR 0x0A])) ! 2 =
     ''# foo [l](index.md#frag {#notes-foo-lindexmdfrag}'' \<and>
   add_ids_and_rewrite_links example_fs (build_slug_table [''index.md'', ''notes.md'']) ''notes''
     ''notes.md'' (''# foo [l](index.md#frag'' @ [CHR 0x0A] @ ''x)'' @ [CHR 0x0A]) =
     ''[]{#notes}'' @ [CHR 0x0A, CHR 0x0A] @
     ''# foo [l](#indexmd-b8d322cc-frag-notes-foo-lindexmdfrag-x)'' @ [CHR 0x0A] \<and>
   \<not> py_in ''{#notes-foo-lindexmdfrag}''
     (add_ids_and_rewrite_links example_fs (build_slug_table [''index.md'', ''notes.md'']) ''notes''
        ''notes.md'' (''# foo [l](index.md#frag'' @ [CHR 0x0A] @ ''x)'' @ [CHR 0x0A]))"
  by code_simp

text \<open>
  C10, amended. Every line of a document that matches the heading pattern and whose title
  does not contain \<^verbatim>\<open>{#\<close> is rewritten to its marks, its trimmed title and an assigned id,
  two positions further down in the list of output lines (after the top anchor and the
  empty line). The id is the document slug, a dash and the slug of the title, possibly
  followed by a counter from 2 on. Nothing is assumed about the other lines: fences around
  the line do not matter. When the document slug has no bracket or parenthesis, the
  annotation at the end of its line is part of the text that \<^verbatim>\<open>add_ids_and_rewrite_links\<close>
  returns, unless a link that is rewritten has the annotation inside its target.
\<close>

theorem c10_heading_annotated_in_any_context:
  assumes "i < length (splitlines md_text)"
    and "atx_heading_re (splitlines md_text ! i) = Some (hashes, title)"
    and "\<not> py_in ''{#'' title"
  shows "\<exists>hid. annotated_lines file_slug (splitlines md_text) ! (i + 2) =
           hashes @ '' '' @ py_strip title @ '' {#'' @ hid @ ''}'' \<and>
         hid \<in> set (assigned_ids file_slug (splitlines md_text)) \<and>
         (hid = file_slug @ ''-'' @ slugify (py_strip title) \<or>
          (\<exists>n\<ge>2. hid = file_slug @ ''-'' @ slugify (py_strip title) @ ''-'' @ str_of_nat n)) \<and>
         (set file_slug \<inter> set ''[]()'' = {} \<and>
          (\<forall>(label, target)\<in>set (md_links
               (join [CHR 0x0A] (annotated_lines file_slug (splitlines md_text)) @ [CHR 0x0A])).
             py_in ('' {#'' @ hid @ ''}'' @ [CHR 0x0A]) target \<longrightarrow>
             repl fs file_slug_by_md_rel current_file label target =
               ''['' @ label @ '']('' @ target @ '')'') \<longrightarrow>
          py_in ('' {#'' @ hid @ ''}'' @ [CHR 0x0A])
            (add_ids_and_rewrite_links fs file_slug_by_md_rel file_slug current_file md_text))"
proof -
  let ?lines = "splitlines md_text"
  let ?doc = "join [CHR 0x0A] (annotated_lines file_slug ?lines) @ [CHR 0x0A]"
  from heading_loop_nth [OF assms(1)] obtain c where
    c: "heading_loop file_slug Map.empty ?lines ! i =
        (fst (rewrite_heading_line file_slug c (?lines ! i)),
         fst (snd (rewrite_heading_line file_slug c (?lines ! i))))"
    by blast
  from rewrite_heading_line_heading [OF assms(2,3), of file_slug c] obtain hid where
    h: "rewrite_heading_line file_slug c (?lines ! i) =
          (hashes @ '' '' @ py_strip title @ '' {#'' @ hid @ ''}'', Some hid,
           snd (make_unique_id c (file_slug @ ''-'' @ slugify (py_strip title))))"
    and f: "hid = file_slug @ ''-'' @ slugify (py_strip title) \<or>
          (\<exists>n\<ge>2. hid = file_slug @ ''-'' @ slugify (py_strip title) @ ''-'' @ str_of_nat n)"
    by blast
  let ?x = "'' {#'' @ hid @ ''}'' @ [CHR 0x0A]"
  from c h have e: "heading_loop file_slug Map.empty ?lines ! i =
      (hashes @ '' '' @ py_strip title @ '' {#'' @ hid @ ''}'', Some hid)"
    by simp
  have i: "i < length (heading_loop file_slug Map.empty ?lines)"
    using assms(1) by (simp add: length_heading_loop)
  have 1: "annotated_lines file_slug ?lines ! (i + 2) =
           hashes @ '' '' @ py_strip title @ '' {#'' @ hid @ ''}''"
    using e i by (simp add: annotated_lines_def nth_append)
  have "(hashes @ '' '' @ py_strip title @ '' {#'' @ hid @ ''}'', Some hid)
          \<in> set (heading_loop file_slug Map.empty ?lines)"
    using e i by (metis nth_mem)
  then have 2: "hid \<in> set (assigned_ids file_slug ?lines)"
    by (force simp: assigned_ids_def List.map_filter_def)
  have 3: "py_in ?x (add_ids_and_rewrite_links fs file_slug_by_md_rel file_slug current_file md_text)"
    if slug: "set file_slug \<inter> set ''[]()'' = {}"
      and links: "\<forall>(label, target)\<in>set (md_links ?doc).
             py_in ?x target \<longrightarrow>
             repl fs file_slug_by_md_rel current_file label target =
               ''['' @ label @ '']('' @ target @ '')''"
  proof -
    have "i + 2 < length (annotated_lines file_slug ?lines)"
      using assms(1) by (simp add: annotated_lines_def length_heading_loop)
    from join_nth [OF this, of "CHR 0x0A"] obtain a b where
      "?doc = a @ annotated_lines file_slug ?lines ! (i + 2) @ [CHR 0x0A] @ b"
      by blast
    then have doc: "?doc = (a @ hashes @ '' '' @ py_strip title) @ ?x @ b"
      unfolding 1 by simp
    have "set hid \<inter> set ''[]()'' = {}"
      using f slug slugify_no_brackets [of "py_strip title"] str_of_nat_no_brackets
      by fastforce
    then have x: "set ?x \<inter> set ''[]()'' = {}"
      by auto
    have keep: "\<forall>label group2. \<exists>rest.
        repl fs file_slug_by_md_rel current_file label group2 = ''['' @ label @ '']'' @ rest"
      using repl_keeps_label by blast
    have "\<forall>(label, group2)\<in>set (md_links ?doc).
           (\<exists>a' b'. group2 = a' @ ?x @ b') \<longrightarrow>
           repl fs file_slug_by_md_rel current_file label group2 = link_group0 label group2"
      using links by (simp add: py_in_iff link_group0_def)
    from sub_links_keeps [OF x keep doc this] show ?thesis
      unfolding add_ids_and_rewrite_links_def rewrite_links_def py_in_iff .
  qed
  from 1 2 f 3 show ?thesis
    by blast
qed

lemma example_comment_lines:
  "splitlines (''See [home](index.md).'' @ [CHR 0x0A] @ fence3 @ ''python'' @ [CHR 0x0A] @
     ''# install deps'' @ [CHR 0x0A] @ fence3 @ [CHR 0x0A]) =
   [''See [home](index.md).'', fence3 @ ''python'', ''# install deps'', fence3]"
  by code_simp

lemma example_comment_doc:
  "annotated_lines ''guide'' [''See [home](index.md).'', fence3 @ ''python'', ''# install deps'', fence3] ! 4 =
     ''# install deps {#'' @ ''guide-install-deps'' @ ''}''"
  "md_links (join [CHR 0x0A] (annotated_lines ''guide''
      [''See [home](index.md).'', fence3 @ ''python'', ''# install deps'', fence3]) @ [CHR 0x0A]) =
   [(''home'', ''index.md'')]"
  "\<not> py_in ('' {#'' @ ''guide-install-deps'' @ ''}'' @ [CHR 0x0A]) ''index.md''"
  "set ''guide'' \<inter> set ''[]()'' = {}"
  by code_simp+

text \<open>
  C10, amended, on a \<^verbatim>\<open>#\<close> comment line inside a fenced \<^verbatim>\<open>python\<close> code block of a
  document with a link on another line: the annotation is in the returned text.
\<close>

theorem c10_heading_annotated_in_any_context_witness:
  "py_in ('' {#guide-install-deps}'' @ [CHR 0x0A])
     (add_ids_and_rewrite_links example_fs (build_slug_table example_rels) ''guide''
        ''guide.md''
        (''See [home](index.md).'' @ [CHR 0x0A] @ fence3 @ ''python'' @ [CHR 0x0A] @
         ''# install deps'' @ [CHR 0x0A] @ fence3 @ [CHR 0x0A]))"
proof -
  let ?md = "''See [home](index.md).'' @ [CHR 0x0A] @ fence3 @ ''python'' @ [CHR 0x0A] @
         ''# install deps'' @ [CHR 0x0A] @ fence3 @ [CHR 0x0A]"
  have a: "2 < length (splitlines ?md)"
    unfolding example_comment_lines by simp
  have b: "atx_heading_re (splitlines ?md ! 2) = Some (''#'', ''install deps'')"
    unfolding example_comment_lines by (simp add: atx_python_comment)
  from c10_heading_annotated_in_any_context [OF a b no_marker_python_comment,
      of "''guide''" example_fs "build_slug_table example_rels" "''guide.md''"]
  obtain hid where
    1: "annotated_lines ''guide'' (splitlines ?md) ! (2 + 2) =
          ''#'' @ '' '' @ py_strip ''install deps'' @ '' {#'' @ hid @ ''}''"
    and 2: "set ''guide'' \<inter> set ''[]()'' = {} \<and>
          (\<forall>(label, target)\<in>set (md_links
               (join [CHR 0x0A] (annotated_lines ''guide'' (splitlines ?md)) @ [CHR 0x0A])).
             py_in ('' {#'' @ hid @ ''}'' @ [CHR 0x0A]) target \<longrightarrow>
             repl example_fs (build_slug_table example_rels) ''guide.md'' label target =
               ''['' @ label @ '']('' @ target @ '')'') \<longrightarrow>
          py_in ('' {#'' @ hid @ ''}'' @ [CHR 0x0A])
            (add_ids_and_rewrite_links example_fs (build_slug_table example_rels) ''guide''
               ''guide.md'' ?md)"
    by blast
  have l4: "annotated_lines ''guide'' (splitlines ?md) ! (2 + 2) =
      ''# install deps {#'' @ ''guide-install-deps'' @ ''}''"
    unfolding example_comment_lines using example_comment_doc(1) by simp
  from 1 have "hid @ ''}'' = ''guide-install-deps'' @ ''}''"
    unfolding l4 slug_python_comment(2) by simp
  then have hid: "hid = ''guide-install-deps''"
    by (rule append_same_eq [THEN iffD1])
  from 2 show ?thesis
    unfolding hid example_comment_lines example_comment_doc(2)
    using example_comment_doc(3,4) by simp
qed

subsection \<open>Document slugs\<close>

lemma length_hex32: "length (hex32 w) = 8"
  by (simp add: hex32_def)

lemma hex_digit_in: "hex_digit n \<in> set ''0123456789abcdef''"
proof -
  have "nat (n mod 16) < length ''0123456789abcdef''"
    by simp
  then show ?thesis
    unfolding hex_digit_def by (rule nth_mem)
qed

lemma take8_hexdigest: "take 8 (sha1_hexdigest s) = hex32 (fst (sha1 s))"
  by (cases "sha1 s") (simp add: sha1_hexdigest_def length_hex32)

lemma slug_base_example: "slugify ''a/b.md'' = ''abmd''" "slugify ''a b.md'' = ''a-bmd''"
  by code_simp+

lemma slug_collision:
  "safe_file_slug ''reLEase-NoTEs-Draft.md'' = ''release-notes-draftmd-11e6025f''"
  "safe_file_slug ''rElEase-NoteS-DraFt.md'' = ''release-notes-draftmd-11e6025f''"
  by code_simp+

text \<open>
  C3, as stated, fails twice. The slug of \<^verbatim>\<open>a/b.md\<close> starts with \<^verbatim>\<open>a-bmd\<close>, not with
  \<^verbatim>\<open>slugify("a/b.md") = "abmd"\<close>: the source replaces the slashes by spaces before
  slugifying. And the distinct relative paths \<^verbatim>\<open>reLEase-NoTEs-Draft.md\<close> and
  \<^verbatim>\<open>rElEase-NoteS-DraFt.md\<close> have the same slug: their slugified texts agree and so do
  the first eight hex digits of their SHA-1 digests.
\<close>

theorem c3_slug_formula_and_collision_counterexample:
  "safe_file_slug ''a/b.md'' \<noteq>
     slugify ''a/b.md'' @ ''-'' @ take 8 (sha1_hexdigest ''a/b.md'') \<and>
   ''reLEase-NoTEs-Draft.md'' \<noteq> ''rElEase-NoteS-DraFt.md'' \<and>
   safe_file_slug ''reLEase-NoTEs-Draft.md'' = safe_file_slug ''rElEase-NoteS-DraFt.md''"
proof -
  have "safe_file_slug ''a/b.md'' \<noteq>
     slugify ''a/b.md'' @ ''-'' @ take 8 (sha1_hexdigest ''a/b.md'')"
    by (simp add: safe_file_slug_def Let_def slug_base_example)
  moreover have "safe_file_slug ''reLEase-NoTEs-Draft.md'' = safe_file_slug ''rElEase-NoteS-DraFt.md''"
    by (simp only: slug_collision)
  ultimately show ?thesis
    by simp
qed

text \<open>
  C3, amended. The slug of a document is the slugified relative path, with every slash
  first replaced by a space, then a dash and the first eight hex digits of the SHA-1
  digest of the relative path. It is a function of the relative path alone: the table
  built for a corpus maps every relative path in it to that slug, whatever the other
  documents are. Two relative paths have different slugs exactly when their slugified
  texts differ or their eight-digit hash prefixes differ.
\<close>

theorem c3_slug_of_relative_path:
  "safe_file_slug rel =
     slugify (map (\<lambda>c. if c = CHR ''/'' then CHR '' '' else c) rel) @ ''-'' @
     take 8 (sha1_hexdigest rel) \<and>
   length (take 8 (sha1_hexdigest rel)) = 8 \<and>
   set (take 8 (sha1_hexdigest rel)) \<subseteq> set ''0123456789abcdef'' \<and>
   map_of (build_slug_table rels) rel =
     (if rel \<in> set rels then Some (safe_file_slug rel) else None) \<and>
   (safe_file_slug r1 \<noteq> safe_file_slug r2 \<longleftrightarrow>
      slugify (map (\<lambda>c. if c = CHR ''/'' then CHR '' '' else c) r1) \<noteq>
      slugify (map (\<lambda>c. if c = CHR ''/'' then CHR '' '' else c) r2) \<or>
      take 8 (sha1_hexdigest r1) \<noteq> take 8 (sha1_hexdigest r2))"
proof -
  have l: "length (take 8 (sha1_hexdigest s)) = 8" for s
    by (simp add: take8_hexdigest length_hex32)
  have h: "set (take 8 (sha1_hexdigest rel)) \<subseteq> set ''0123456789abcdef''"
    unfolding take8_hexdigest hex32_def using hex_digit_in by auto
  have e: "(a @ c # x = b @ c # y) = (a = b \<and> x = y)"
    if "length x = length y" for a b x y :: string and c
    using that by auto
  have i: "(safe_file_slug r1 \<noteq> safe_file_slug r2) =
      (slugify (map (\<lambda>c. if c = CHR ''/'' then CHR '' '' else c) r1) \<noteq>
       slugify (map (\<lambda>c. if c = CHR ''/'' then CHR '' '' else c) r2) \<or>
       take 8 (sha1_hexdigest r1) \<noteq> take 8 (sha1_hexdigest r2))"
    unfolding safe_file_slug_def Let_def
    using e [of "take 8 (sha1_hexdigest r1)" "take 8 (sha1_hexdigest r2)"] l
    by auto
  have f: "safe_file_slug rel =
     slugify (map (\<lambda>c. if c = CHR ''/'' then CHR '' '' else c) rel) @ ''-'' @
     take 8 (sha1_hexdigest rel)"
    by (simp add: safe_file_slug_def Let_def)
  from f l [of rel] h map_of_build_slug_table [of rels rel] i show ?thesis
    by blast
qed

lemma slug_a_b: "take 8 (sha1_hexdigest ''a/b.md'') = ''c5c408ab''"
  by code_simp

text \<open>C3, amended, at \<^verbatim>\<open>a/b.md\<close> in a corpus of two documents.\<close>

theorem c3_slug_of_relative_path_witness:
  "safe_file_slug ''a/b.md'' = ''a-bmd-c5c408ab'' \<and>
   map_of (build_slug_table [''index.md'', ''a/b.md'']) ''a/b.md'' = Some ''a-bmd-c5c408ab''"
  using c3_slug_of_relative_path [of "''a/b.md''" "[''index.md'', ''a/b.md'']"]
  by (simp add: slug_base_example slug_a_b)

end
